theory Spec2Isabelle
  imports Main "HOL-Library.Word" "HOL-Library.Signed_Division"
begin

unbundle bit_operations_syntax

section \<open>memtester 4.5.1: region acquisition and the test driver\<close>

text \<open>
  A shallow embedding of \<^verbatim>\<open>memtester.c\<close>: \<^verbatim>\<open>memtester_pagesize\<close>,
  \<^verbatim>\<open>get_free_hugepages\<close>, \<^verbatim>\<open>alloc_using_hugepages\<close>, \<^verbatim>\<open>alloc_using_malloc\<close> and the part
  of \<^verbatim>\<open>main\<close> that follows argument parsing.

  Integer types are those of an LP64 Linux target (the huge-page counter file the program
  reads is the x86-64 Linux one): \<^verbatim>\<open>size_t\<close>, \<^verbatim>\<open>ptrdiff_t\<close>, \<^verbatim>\<open>long\<close>, \<^verbatim>\<open>unsigned long\<close> and
  pointers are 64-bit words, \<^verbatim>\<open>int\<close> is a 32-bit word read with \<open>sint\<close>. Conversions between
  them are written where the C performs them: \<open>ucast\<close> truncates or zero-extends,
  \<open>scast\<close> sign-extends.

  The operating system is not part of the program. Each call of \<^verbatim>\<open>malloc\<close>, \<^verbatim>\<open>mmap\<close>, \<^verbatim>\<open>mlock\<close>
  and of a memory test takes its answer from a recorded list of answers, in call order,
  and every call is appended to a trace. What \<^verbatim>\<open>sysconf\<close>, \<^verbatim>\<open>open\<close> and the free-huge-pages
  file answer is asked once and is part of the configuration of a run. When a list is
  used up the run is \<open>Pending\<close>: the program is still running and waits for an answer
  that the record does not hold. Every loop of the program consumes an answer on each
  iteration that does not leave it, so the lists are also what bounds the recursion, and
  a run that never ends is one that is \<open>Pending\<close> for every record, however long.
\<close>

subsection \<open>Data\<close>

type_synonym size_t = "64 word"
type_synonym ptr = "64 word"
type_synonym cint = "32 word"
type_synonym clong = "64 word"
type_synonym ul = "64 word"

text \<open>\<^verbatim>\<open>struct memory_alloc\<close>. The two \<^verbatim>\<open>int\<close> flags are only ever assigned 0 or 1 and only
  tested for being nonzero.\<close>

record memory_alloc =
  buf :: ptr
  aligned :: ptr
  wantbytes :: size_t
  bufsize :: cint
  do_mlock :: bool
  use_hugepages :: bool
  pagesize :: size_t
  pagesizemask :: "64 word"

text \<open>The \<^verbatim>\<open>errno\<close> values the program tells apart; \<open>EOTHER\<close> is any other value. An
  answer \<open>MapOk p\<close> is a successful \<^verbatim>\<open>mmap\<close> that returns the address \<open>p\<close>, \<open>MapErr e\<close> one that
  returns \<^verbatim>\<open>MAP_FAILED\<close> and sets \<^verbatim>\<open>errno\<close> to \<open>e\<close>; likewise for \<^verbatim>\<open>mlock\<close>, which returns 0 or a
  negative value. A \<^verbatim>\<open>malloc\<close> answer is the pointer returned, 0 for \<^verbatim>\<open>NULL\<close>. A verdict is the
  \<^verbatim>\<open>int\<close> a test function returns.\<close>

datatype errno = EAGAIN | ENOMEM | EPERM | EOTHER

datatype mmap_res = MapOk ptr | MapErr errno

datatype mlock_res = MlockOk | MlockErr errno

text \<open>What \<^verbatim>\<open>fopen\<close> and \<^verbatim>\<open>fscanf\<close> find in the free-huge-pages counter file.\<close>

datatype hp_file = NoFile | Unreadable | Counter clong

datatype event =
    EvMalloc size_t
  | EvFree ptr
  | EvMmapHuge size_t
  | EvOpen
  | EvMmapPhys size_t "64 word"
  | EvMlock ptr size_t
  | EvStuckAddress ptr size_t
  | EvTest string ptr ptr size_t
  | EvMemset ptr size_t
  | EvMunlock ptr size_t

record world =
  mallocs :: "ptr list"
  mmaps :: "mmap_res list"
  mlocks :: "mlock_res list"
  verdicts :: "cint list"
  trace :: "event list"

datatype 'a outcome = Returns 'a | Exits cint world | Pending world

definition EXIT_FAIL_NONSTARTER :: cint where
  "EXIT_FAIL_NONSTARTER = 0x01"

definition EXIT_FAIL_ADDRESSLINES :: cint where
  "EXIT_FAIL_ADDRESSLINES = 0x02"

definition EXIT_FAIL_OTHERTEST :: cint where
  "EXIT_FAIL_OTHERTEST = 0x04"

text \<open>\<^verbatim>\<open>EXIT_FAILURE\<close> of \<^verbatim>\<open>stdlib.h\<close> on the target.\<close>

definition EXIT_FAILURE :: cint where
  "EXIT_FAILURE = 1"

text \<open>\<^verbatim>\<open>MAP_FAILED\<close> is \<^verbatim>\<open>(void *) -1\<close>.\<close>

definition MAP_FAILED :: ptr where
  "MAP_FAILED = - 1"

definition called :: "event \<Rightarrow> world \<Rightarrow> world" where
  "called e w = w\<lparr>trace := trace w @ [e]\<rparr>"

subsection \<open>Page size\<close>

text \<open>\<^verbatim>\<open>memtester_pagesize\<close>, the \<^verbatim>\<open>_SC_PAGE_SIZE\<close> variant. The argument \<open>sc\<close> is what
  \<^verbatim>\<open>sysconf(_SC_PAGE_SIZE)\<close> returns, converted to \<^verbatim>\<open>size_t\<close>.\<close>

definition memtester_pagesize :: "size_t \<Rightarrow> memory_alloc \<Rightarrow> world \<Rightarrow> memory_alloc outcome" where
  "memtester_pagesize sc a w =
     (if use_hugepages a then
        Returns (a\<lparr>pagesize := 2 * 1024 * 1024,
                    pagesizemask := NOT (2 * 1024 * 1024 - 1)\<rparr>)
      else if sc = - 1 then Exits EXIT_FAIL_NONSTARTER w
      else Returns (a\<lparr>pagesize := sc, pagesizemask := NOT (sc - 1)\<rparr>))"

subsection \<open>Alignment\<close>

text \<open>The alignment block, which the source has twice with the same text: inside
  \<^verbatim>\<open>alloc_using_malloc\<close> before the \<^verbatim>\<open>mlock\<close> call, and in \<^verbatim>\<open>main\<close> after allocation.
  \<^verbatim>\<open>bufsize\<close> is an \<^verbatim>\<open>int\<close>: it is sign-extended for the subtraction and the difference is
  truncated back.\<close>

definition align_to_page :: "memory_alloc \<Rightarrow> memory_alloc" where
  "align_to_page a =
     (if buf a mod pagesize a \<noteq> 0 then
        (let a1 = a\<lparr>aligned := (buf a AND pagesizemask a) + pagesize a\<rparr>
         in a1\<lparr>bufsize := ucast ((scast (bufsize a1) :: size_t) - (aligned a1 - buf a1))\<rparr>)
      else a\<lparr>aligned := buf a\<rparr>)"

subsection \<open>Heap allocation\<close>

text \<open>The \<^verbatim>\<open>while (!alloc->buf && alloc->wantbytes)\<close> loop of \<^verbatim>\<open>alloc_using_malloc\<close>.\<close>

function malloc_while :: "memory_alloc \<Rightarrow> world \<Rightarrow> (memory_alloc \<times> world) outcome" where
  "malloc_while a w =
     (if buf a = 0 \<and> wantbytes a \<noteq> 0 then
        (case mallocs w of
           [] \<Rightarrow> Pending w
         | p # ps \<Rightarrow>
             (let w1 = called (EvMalloc (wantbytes a)) (w\<lparr>mallocs := ps\<rparr>);
                  a1 = a\<lparr>buf := p\<rparr>;
                  a2 = (if buf a1 = 0 then a1\<lparr>wantbytes := wantbytes a1 - pagesize a1\<rparr>
                        else a1)
              in malloc_while a2 w1))
      else Returns (a, w))"
  by pat_completeness auto
termination
  by (relation "measure (\<lambda>(a, w). length (mallocs w))") (auto simp: called_def)

declare malloc_while.simps [simp del]

text \<open>\<^verbatim>\<open>alloc_using_malloc\<close>. The third component of the result is the \<^verbatim>\<open>int\<close> it returns.\<close>

definition mlock_failed :: "errno \<Rightarrow> size_t \<Rightarrow> memory_alloc \<Rightarrow> world \<Rightarrow> memory_alloc \<times> world \<times> cint" where
  "mlock_failed e wantbytes_orig a w =
     (case e of
        EAGAIN \<Rightarrow>
          (a\<lparr>buf := 0, wantbytes := wantbytes a - pagesize a\<rparr>, called (EvFree (buf a)) w, 0)
      | ENOMEM \<Rightarrow>
          (a\<lparr>buf := 0, wantbytes := wantbytes a - pagesize a\<rparr>, called (EvFree (buf a)) w, 0)
      | EPERM \<Rightarrow>
          (a\<lparr>do_mlock := False, buf := 0, wantbytes := wantbytes_orig\<rparr>,
           called (EvFree (buf a)) w, 0)
      | EOTHER \<Rightarrow> (a\<lparr>do_mlock := False\<rparr>, w, 1))"

definition alloc_using_malloc ::
  "memory_alloc \<Rightarrow> size_t \<Rightarrow> world \<Rightarrow> (memory_alloc \<times> world \<times> cint) outcome" where
  "alloc_using_malloc a0 wantbytes_orig w0 =
     (case malloc_while a0 w0 of
        Pending w \<Rightarrow> Pending w
      | Exits c w \<Rightarrow> Exits c w
      | Returns (a1, w1) \<Rightarrow>
          (let a2 = a1\<lparr>bufsize := ucast (wantbytes a1)\<rparr> in
           if do_mlock a2 then
             (let a3 = align_to_page a2 in
              case mlocks w1 of
                [] \<Rightarrow> Pending w1
              | r # rs \<Rightarrow>
                  (let w2 = called (EvMlock (aligned a3) (scast (bufsize a3)))
                              (w1\<lparr>mlocks := rs\<rparr>)
                   in case r of
                        MlockOk \<Rightarrow> Returns (a3, w2, 1)
                      | MlockErr e \<Rightarrow> Returns (mlock_failed e wantbytes_orig a3 w2)))
           else Returns (a2, w1, 1)))"

text \<open>The \<^verbatim>\<open>while (!done_mem)\<close> loop of \<^verbatim>\<open>main\<close>, entered with \<^verbatim>\<open>done_mem == 0\<close>. A call
  that returns 0 has used one \<^verbatim>\<open>mlock\<close> answer, which is what ends the recursion.\<close>

function malloc_retry :: "size_t \<Rightarrow> memory_alloc \<Rightarrow> world \<Rightarrow> (memory_alloc \<times> world) outcome" where
  "malloc_retry wantbytes_orig a w =
     (case alloc_using_malloc a wantbytes_orig w of
        Pending w' \<Rightarrow> Pending w'
      | Exits c w' \<Rightarrow> Exits c w'
      | Returns (a', w', done_mem) \<Rightarrow>
          (if done_mem = 0 then malloc_retry wantbytes_orig a' w' else Returns (a', w')))"
  by pat_completeness auto
termination
proof (relation "measure (\<lambda>(orig, a, w). length (mlocks w))")
  show "wf (measure (\<lambda>(orig, a, w). length (mlocks w)))"
    by simp
next
  fix wantbytes_orig :: size_t and a :: memory_alloc and w :: world
    and x y :: "memory_alloc \<times> world \<times> cint" and a' :: memory_alloc
    and y' :: "world \<times> cint" and w' :: world and done_mem :: cint
  assume ret: "alloc_using_malloc a wantbytes_orig w = Returns x"
    and x: "(a', y') = x" and y': "(w', done_mem) = y'" and again: "done_mem = 0"
  have keep: "mlocks v' = mlocks v" if "malloc_while b v = Returns (b', v')"
    for b v b' v'
    using that
  proof (induction b v rule: malloc_while.induct)
    case (1 b v)
    show ?case
    proof (cases "buf b = 0 \<and> wantbytes b \<noteq> 0")
      case False
      with "1.prems" show ?thesis by (simp add: malloc_while.simps)
    next
      case True
      show ?thesis
      proof (cases "mallocs v")
        case Nil
        with True "1.prems" show ?thesis by (simp add: malloc_while.simps)
      next
        case (Cons p ps)
        with True "1.prems" "1.IH" [OF True Cons refl refl refl] show ?thesis
          by (simp add: malloc_while.simps [of b v] Let_def called_def)
      qed
    qed
  qed
  from ret x y' again have "length (mlocks w') < length (mlocks w)"
    by (auto simp: alloc_using_malloc_def Let_def called_def mlock_failed_def
        split: outcome.splits prod.splits if_splits list.splits mlock_res.splits errno.splits
        dest!: keep)
  then show "((wantbytes_orig, a', w'), (wantbytes_orig, a, w))
      \<in> measure (\<lambda>(orig, a, w). length (mlocks w))"
    by simp
qed

declare malloc_retry.simps [simp del]

subsection \<open>Huge-page allocation\<close>

text \<open>\<^verbatim>\<open>get_free_hugepages\<close>: the counter, or -1 when the file cannot be opened or read.\<close>

definition get_free_hugepages :: "hp_file \<Rightarrow> clong" where
  "get_free_hugepages f = (case f of NoFile \<Rightarrow> - 1 | Unreadable \<Rightarrow> - 1 | Counter n \<Rightarrow> n)"

text \<open>What the \<^verbatim>\<open>ENOMEM\<close> branch of the loop does to the request. \<^verbatim>\<open>free_hugepages\<close> is a
  \<^verbatim>\<open>long\<close>: its test against 0 is signed, its product with the page size is unsigned.\<close>

definition hugepages_enomem :: "clong \<Rightarrow> memory_alloc \<Rightarrow> memory_alloc" where
  "hugepages_enomem free_hugepages a =
     (let a1 = a\<lparr>buf := 0\<rparr> in
      if 0 < sint free_hugepages \<and> wantbytes a1 > free_hugepages * pagesize a1
      then a1\<lparr>wantbytes := free_hugepages * pagesize a1\<rparr>
      else a1\<lparr>wantbytes := wantbytes a1 - pagesize a1\<rparr>)"

text \<open>The \<^verbatim>\<open>while (!alloc->buf && alloc->wantbytes)\<close> loop of \<^verbatim>\<open>alloc_using_hugepages\<close>. The
  \<^verbatim>\<open>break\<close> leaves the loop and the function returns to \<^verbatim>\<open>main\<close>; only an \<^verbatim>\<open>mmap\<close> failure
  with another \<^verbatim>\<open>errno\<close> calls \<^verbatim>\<open>exit\<close>.\<close>

function hugepages_while ::
  "clong \<Rightarrow> memory_alloc \<Rightarrow> world \<Rightarrow> (memory_alloc \<times> world) outcome" where
  "hugepages_while free_hugepages a w =
     (if buf a = 0 \<and> wantbytes a \<noteq> 0 then
        (case mmaps w of
           [] \<Rightarrow> Pending w
         | r # rs \<Rightarrow>
             (let w1 = called (EvMmapHuge (wantbytes a)) (w\<lparr>mmaps := rs\<rparr>) in
              case r of
                MapErr e \<Rightarrow>
                  (if e = ENOMEM then
                     (let a2 = hugepages_enomem free_hugepages (a\<lparr>buf := MAP_FAILED\<rparr>) in
                      if wantbytes a2 < pagesize a2 then Returns (a2, w1)
                      else hugepages_while free_hugepages a2 w1)
                   else Exits EXIT_FAILURE w1)
              | MapOk p \<Rightarrow> hugepages_while free_hugepages (a\<lparr>buf := p\<rparr>) w1))
      else Returns (a, w))"
  by pat_completeness auto
termination
  by (relation "measure (\<lambda>(f, a, w). length (mmaps w))") (auto simp: called_def)

declare hugepages_while.simps [simp del]

definition round_to_pagesize :: "memory_alloc \<Rightarrow> memory_alloc" where
  "round_to_pagesize a =
     (if wantbytes a mod pagesize a \<noteq> 0
      then a\<lparr>wantbytes := (wantbytes a div pagesize a + 1) * pagesize a\<rparr>
      else a)"

definition alloc_using_hugepages ::
  "hp_file \<Rightarrow> memory_alloc \<Rightarrow> world \<Rightarrow> (memory_alloc \<times> world) outcome" where
  "alloc_using_hugepages f a w =
     (let free_hugepages = get_free_hugepages f
      in hugepages_while free_hugepages (round_to_pagesize a) w)"

subsection \<open>Physical-device mapping\<close>

text \<open>The \<^verbatim>\<open>if (use_phys)\<close> block of \<^verbatim>\<open>main\<close>. \<open>opened\<close> says whether \<^verbatim>\<open>open\<close> returned a
  descriptor.\<close>

definition map_physical ::
  "bool \<Rightarrow> 64 word \<Rightarrow> memory_alloc \<Rightarrow> world \<Rightarrow> (memory_alloc \<times> world) outcome" where
  "map_physical opened physaddrbase a w =
     (let w1 = called EvOpen w in
      if \<not> opened then Exits EXIT_FAIL_NONSTARTER w1
      else
        (case mmaps w1 of
           [] \<Rightarrow> Pending w1
         | r # rs \<Rightarrow>
             (let w2 = called (EvMmapPhys (wantbytes a) physaddrbase) (w1\<lparr>mmaps := rs\<rparr>);
                  a1 = a\<lparr>buf := (case r of MapOk p \<Rightarrow> p | MapErr e \<Rightarrow> MAP_FAILED)\<rparr>
              in if buf a1 = MAP_FAILED then Exits EXIT_FAIL_NONSTARTER w2
                 else
                   (case mlocks w2 of
                      [] \<Rightarrow> Pending w2
                    | m # ms \<Rightarrow>
                        (let w3 = called (EvMlock (buf a1) (wantbytes a1)) (w2\<lparr>mlocks := ms\<rparr>);
                             a2 = (case m of MlockOk \<Rightarrow> a1
                                   | MlockErr e \<Rightarrow> a1\<lparr>do_mlock := False\<rparr>);
                             a3 = a2\<lparr>bufsize := ucast (wantbytes a2)\<rparr>;
                             a4 = a3\<lparr>aligned := buf a3\<rparr>
                         in Returns (a4, w3))))))"

subsection \<open>The test table and one loop iteration\<close>

text \<open>The \<^verbatim>\<open>tests\<close> table as built without \<^verbatim>\<open>TEST_NARROW_WRITES\<close>, ending with the
  \<^verbatim>\<open>{ NULL, NULL }\<close> sentinel. The test functions themselves are in another translation
  unit; an entry is identified by its name, and what a call returns is taken from the
  recorded verdicts (0 means no fault found).\<close>

definition tests :: "string option list" where
  "tests =
     [Some ''Random Value'', Some ''Compare XOR'', Some ''Compare SUB'', Some ''Compare MUL'',
      Some ''Compare DIV'', Some ''Compare OR'', Some ''Compare AND'',
      Some ''Sequential Increment'', Some ''Solid Bits'', Some ''Block Sequential'',
      Some ''Checkerboard'', Some ''Bit Spread'', Some ''Bit Flip'', Some ''Walking Ones'',
      Some ''Walking Zeroes'', None]"

text \<open>Modelled from the spec: \<^verbatim>\<open>types.h\<close>, which declares \<^verbatim>\<open>ul\<close>, is not among the sources. \<^verbatim>\<open>ul\<close>
  is the word of the specification's glossary, "the machine's natural access width": the
  64-bit \<^verbatim>\<open>unsigned long\<close> that \<^verbatim>\<open>strtoul\<close> and the \<^verbatim>\<open>%lu\<close> conversions of \<^verbatim>\<open>main\<close> work with, so
  \<^verbatim>\<open>sizeof(ul)\<close> is 8.\<close>

definition sizeof_ul :: size_t where
  "sizeof_ul = 8"

text \<open>The values \<^verbatim>\<open>main\<close> derives once from the region, before the loops.\<close>

record buffers =
  halflen :: size_t
  count :: size_t
  bufa :: ptr
  bufb :: ptr

definition split_region :: "memory_alloc \<Rightarrow> buffers" where
  "split_region a =
     (let hl = (word_of_int (sint (bufsize a) sdiv 2) :: size_t) in
      \<lparr>halflen = hl, count = hl div sizeof_ul, bufa = aligned a, bufb = aligned a + hl\<rparr>)"

text \<open>\<^verbatim>\<open>testmask && (!((1 << i) & testmask))\<close>: the shift is done on \<^verbatim>\<open>int\<close> and its result
  converted to \<^verbatim>\<open>unsigned long\<close>.\<close>

definition skipped :: "ul \<Rightarrow> nat \<Rightarrow> bool" where
  "skipped testmask i \<longleftrightarrow>
     testmask \<noteq> 0 \<and> (scast (push_bit i (1 :: cint)) :: ul) AND testmask = 0"

text \<open>The \<^verbatim>\<open>for (i=0;;i++)\<close> loop over the table, from entry \<open>i\<close> on; the first argument is the
  table from that entry. The sentinel ends the loop, so the equation for the empty list
  is never reached from \<open>tests\<close>.\<close>

fun run_tests ::
  "string option list \<Rightarrow> nat \<Rightarrow> ul \<Rightarrow> memory_alloc \<Rightarrow> buffers \<Rightarrow> cint \<Rightarrow> world
     \<Rightarrow> (cint \<times> world) outcome" where
  "run_tests [] i testmask a b exit_code w = Returns (exit_code, w)"
| "run_tests (t # ts) i testmask a b exit_code w =
     (case t of
        None \<Rightarrow> Returns (exit_code, w)
      | Some name \<Rightarrow>
          (if skipped testmask i then run_tests ts (i + 1) testmask a b exit_code w
           else
             (case verdicts w of
                [] \<Rightarrow> Pending w
              | v # vs \<Rightarrow>
                  (let w1 = called (EvTest name (bufa b) (bufb b) (count b))
                              (w\<lparr>verdicts := vs\<rparr>);
                       exit_code1 = (if v = 0 then exit_code
                                     else exit_code OR EXIT_FAIL_OTHERTEST);
                       w2 = called (EvMemset (buf a) (wantbytes a)) w1
                   in run_tests ts (i + 1) testmask a b exit_code1 w2))))"

text \<open>The body of the \<^verbatim>\<open>for (loop = 1; ...)\<close> loop: the stuck-address test over the
  region, then the table.\<close>

definition one_pass ::
  "ul \<Rightarrow> memory_alloc \<Rightarrow> buffers \<Rightarrow> cint \<Rightarrow> world \<Rightarrow> (cint \<times> world) outcome" where
  "one_pass testmask a b exit_code w =
     (case verdicts w of
        [] \<Rightarrow> Pending w
      | v # vs \<Rightarrow>
          (let w1 = called (EvStuckAddress (aligned a) (scast (bufsize a) div sizeof_ul))
                      (w\<lparr>verdicts := vs\<rparr>);
               exit_code1 = (if v = 0 then exit_code
                             else exit_code OR EXIT_FAIL_ADDRESSLINES)
           in run_tests tests 0 testmask a b exit_code1 w1))"

text \<open>\<^verbatim>\<open>for(loop=1; ((!loops) || loop <= loops); loop++)\<close>, from the value \<open>loop\<close> on. Both
  counters are \<^verbatim>\<open>unsigned long\<close>. Each pass uses at least the verdict of the stuck-address
  test.\<close>

function test_loop ::
  "ul \<Rightarrow> ul \<Rightarrow> ul \<Rightarrow> memory_alloc \<Rightarrow> buffers \<Rightarrow> cint \<Rightarrow> world \<Rightarrow> (cint \<times> world) outcome" where
  "test_loop loops loop testmask a b exit_code w =
     (if loops = 0 \<or> loop \<le> loops then
        (case one_pass testmask a b exit_code w of
           Pending w' \<Rightarrow> Pending w'
         | Exits c w' \<Rightarrow> Exits c w'
         | Returns (exit_code', w') \<Rightarrow> test_loop loops (loop + 1) testmask a b exit_code' w')
      else Returns (exit_code, w))"
  by pat_completeness auto
termination
proof (relation "measure (\<lambda>(loops, loop, testmask, a, b, exit_code, w). length (verdicts w))")
  show "wf (measure (\<lambda>(loops, loop, testmask, a, b, exit_code, w). length (verdicts w)))"
    by simp
next
  fix loops loop testmask :: ul and a :: memory_alloc and b :: buffers
    and exit_code exit_code' :: cint and w w' :: world and x :: "cint \<times> world"
  assume pass: "one_pass testmask a b exit_code w = Returns x" and x: "(exit_code', w') = x"
  have le: "length (verdicts v') \<le> length (verdicts v)"
    if "run_tests ts i testmask a b e v = Returns (e', v')" for ts i e v e' v'
    using that
  proof (induction ts arbitrary: i e v)
    case Nil
    then show ?case by simp
  next
    case (Cons t ts)
    show ?case
    proof (cases t)
      case None
      with Cons.prems show ?thesis by simp
    next
      case (Some name)
      show ?thesis
      proof (cases "skipped testmask i")
        case True
        with Some Cons.prems Cons.IH [of "i + 1" e v] show ?thesis by simp
      next
        case False
        show ?thesis
        proof (cases "verdicts v")
          case Nil
          with Some False Cons.prems show ?thesis by simp
        next
          case (Cons u us)
          with Some False Cons.prems have "length (verdicts v') \<le> length us"
            by (auto simp: Let_def called_def dest!: Cons.IH)
          with Cons show ?thesis by simp
        qed
      qed
    qed
  qed
  from pass x have "length (verdicts w') < length (verdicts w)"
    by (auto simp: one_pass_def Let_def called_def split: list.splits dest!: le)
  then show "((loops, loop + 1, testmask, a, b, exit_code', w'),
      (loops, loop, testmask, a, b, exit_code, w))
      \<in> measure (\<lambda>(loops, loop, testmask, a, b, exit_code, w). length (verdicts w))"
    by simp
qed

declare test_loop.simps [simp del]

subsection \<open>\<^verbatim>\<open>main\<close> after argument parsing\<close>

text \<open>What argument parsing and the environment hand to the rest of \<^verbatim>\<open>main\<close>: the value of
  \<^verbatim>\<open>sysconf(_SC_PAGE_SIZE)\<close>, whether \<^verbatim>\<open>-H\<close> was given, \<^verbatim>\<open>use_phys\<close> and \<^verbatim>\<open>physaddrbase\<close>,
  whether the device can be opened, the free-huge-pages file, the request
  \<^verbatim>\<open>wantraw << memshift\<close>, \<^verbatim>\<open>loops\<close> and \<^verbatim>\<open>testmask\<close>.\<close>

record config =
  cfg_sc_page_size :: size_t
  cfg_hugepages :: bool
  cfg_use_phys :: bool
  cfg_physaddrbase :: "64 word"
  cfg_opened :: bool
  cfg_hp_file :: hp_file
  cfg_request :: size_t
  cfg_loops :: ul
  cfg_testmask :: ul

definition and_then :: "'a outcome \<Rightarrow> ('a \<Rightarrow> 'b outcome) \<Rightarrow> 'b outcome" where
  "and_then r f = (case r of Returns x \<Rightarrow> f x | Exits c w \<Rightarrow> Exits c w | Pending w \<Rightarrow> Pending w)"

text \<open>The initialiser of \<^verbatim>\<open>alloc\<close>; members it does not name are zero.\<close>

definition alloc_init :: memory_alloc where
  "alloc_init =
     \<lparr>buf = 0, aligned = 0, wantbytes = 0, bufsize = 0, do_mlock = True,
      use_hugepages = False, pagesize = 0, pagesizemask = 0\<rparr>"

text \<open>The page size as \<^verbatim>\<open>main\<close> has it when parsing is over: \<^verbatim>\<open>memtester_pagesize\<close> is called
  once at the start and once more when \<^verbatim>\<open>-H\<close> is seen.\<close>

definition setup_alloc :: "config \<Rightarrow> world \<Rightarrow> memory_alloc outcome" where
  "setup_alloc cfg w =
     and_then (memtester_pagesize (cfg_sc_page_size cfg) alloc_init w) (\<lambda>a.
       if cfg_hugepages cfg
       then memtester_pagesize (cfg_sc_page_size cfg) (a\<lparr>use_hugepages := True\<rparr>) w
       else Returns a)"

text \<open>From \<^verbatim>\<open>wantbytes_orig = alloc.wantbytes = ...\<close> to the alignment block that follows
  allocation. With \<^verbatim>\<open>use_phys\<close> the flag \<^verbatim>\<open>done_mem\<close> is set, so the heap loop is not entered;
  \<^verbatim>\<open>alloc_using_hugepages\<close> is called whenever \<^verbatim>\<open>use_hugepages\<close> is set.\<close>

definition acquire :: "config \<Rightarrow> world \<Rightarrow> (memory_alloc \<times> world) outcome" where
  "acquire cfg w =
     and_then (setup_alloc cfg w) (\<lambda>a0.
       let wantbytes_orig = cfg_request cfg;
           a1 = a0\<lparr>wantbytes := wantbytes_orig\<rparr>;
           wantmb = drop_bit 20 wantbytes_orig;
           maxbytes = (- 1 :: size_t);
           maxmb = drop_bit 20 maxbytes + 1
       in if wantmb > maxmb then Exits EXIT_FAIL_NONSTARTER w
          else if wantbytes a1 < pagesize a1 then Exits EXIT_FAIL_NONSTARTER w
          else
            and_then
              (if cfg_use_phys cfg
               then map_physical (cfg_opened cfg) (cfg_physaddrbase cfg) (a1\<lparr>buf := 0\<rparr>) w
               else Returns (a1\<lparr>buf := 0\<rparr>, w))
              (\<lambda>(a2, w2).
                 and_then
                   (if use_hugepages a2 then alloc_using_hugepages (cfg_hp_file cfg) a2 w2
                    else if cfg_use_phys cfg then Returns (a2, w2)
                    else malloc_retry wantbytes_orig a2 w2)
                   (\<lambda>(a3, w3). Returns (align_to_page a3, w3))))"

text \<open>The loops, \<^verbatim>\<open>munlock\<close> and \<^verbatim>\<open>exit(exit_code)\<close>.\<close>

definition run_loops :: "config \<Rightarrow> memory_alloc \<Rightarrow> world \<Rightarrow> unit outcome" where
  "run_loops cfg a w =
     and_then (test_loop (cfg_loops cfg) 1 (cfg_testmask cfg) a (split_region a) 0 w)
       (\<lambda>(exit_code, w1).
          Exits exit_code
            (if do_mlock a then called (EvMunlock (aligned a) (scast (bufsize a))) w1
             else w1))"

definition main :: "config \<Rightarrow> world \<Rightarrow> unit outcome" where
  "main cfg w = and_then (acquire cfg w) (\<lambda>(a, w1). run_loops cfg a w1)"

section \<open>Notions used in the statements\<close>

text \<open>The two halves are the byte ranges of \<open>halflen\<close> bytes that start at \<open>bufa\<close> and at
  \<open>bufb\<close>; the usable bytes are the \<open>bufsize\<close> bytes from \<open>aligned\<close> on. The halves lie end to
  end and make up exactly the usable bytes when the first starts at \<open>aligned\<close>, the second
  starts where the first ends, and the two lengths add up to \<open>bufsize\<close>.\<close>

definition covers_usable :: "memory_alloc \<Rightarrow> buffers \<Rightarrow> bool" where
  "covers_usable a b \<longleftrightarrow>
     bufa b = aligned a \<and> bufb b = bufa b + halflen b
     \<and> uint (halflen b) + uint (halflen b) = sint (bufsize a)"

text \<open>The names of the table entries before the sentinel, in table order.\<close>

definition test_names :: "string list" where
  "test_names = map the (takeWhile (\<lambda>t. t \<noteq> None) tests)"

text \<open>The entries a selection mask picks: those whose ordinal bit is set, in table order;
  the mask 0 picks every entry.\<close>

definition picked :: "ul \<Rightarrow> nat \<Rightarrow> string list \<Rightarrow> string list" where
  "picked testmask i names =
     map snd (filter (\<lambda>(j, name). testmask = 0 \<or> bit testmask j) (enumerate i names))"

definition selected :: "ul \<Rightarrow> string list" where
  "selected testmask = picked testmask 0 test_names"

text \<open>The calls one test of the table makes, and the calls of one full pass.\<close>

definition test_events :: "memory_alloc \<Rightarrow> buffers \<Rightarrow> string \<Rightarrow> event list" where
  "test_events a b name =
     [EvTest name (bufa b) (bufb b) (count b), EvMemset (buf a) (wantbytes a)]"

definition pass_events :: "ul \<Rightarrow> memory_alloc \<Rightarrow> event list" where
  "pass_events testmask a =
     EvStuckAddress (aligned a) (scast (bufsize a) div sizeof_ul)
       # concat (map (test_events a (split_region a)) (selected testmask))"

definition other_flag :: "cint list \<Rightarrow> cint" where
  "other_flag vs = (if \<exists>v \<in> set vs. v \<noteq> 0 then EXIT_FAIL_OTHERTEST else 0)"

definition address_flag :: "cint list \<Rightarrow> cint" where
  "address_flag vs = (if \<exists>v \<in> set vs. v \<noteq> 0 then EXIT_FAIL_ADDRESSLINES else 0)"

text \<open>Of the recorded verdicts, those that the stuck-address test and those that the
  tests of the table return in the first \<open>n\<close> passes, when a pass runs \<open>k\<close> tests of the
  table.\<close>

fun stuck_verdicts :: "nat \<Rightarrow> nat \<Rightarrow> cint list \<Rightarrow> cint list" where
  "stuck_verdicts k 0 vs = []"
| "stuck_verdicts k (Suc n) vs = take 1 vs @ stuck_verdicts k n (drop (Suc k) vs)"

fun pattern_verdicts :: "nat \<Rightarrow> nat \<Rightarrow> cint list \<Rightarrow> cint list" where
  "pattern_verdicts k 0 vs = []"
| "pattern_verdicts k (Suc n) vs = take k (drop 1 vs) @ pattern_verdicts k n (drop (Suc k) vs)"

text \<open>The word counts that the test calls of a trace were given, in call order.\<close>

definition word_count :: "event \<Rightarrow> size_t option" where
  "word_count ev =
     (case ev of EvStuckAddress p n \<Rightarrow> Some n | EvTest name p q n \<Rightarrow> Some n | _ \<Rightarrow> None)"

definition test_counts :: "event list \<Rightarrow> size_t list" where
  "test_counts evs = List.map_filter word_count evs"

text \<open>A property of the world in which a call ends, whichever way it ends.\<close>

definition all_ends :: "(world \<Rightarrow> bool) \<Rightarrow> ('a \<Rightarrow> world) \<Rightarrow> 'a outcome \<Rightarrow> bool" where
  "all_ends P f r = (case r of Returns x \<Rightarrow> P (f x) | Exits c w \<Rightarrow> P w | Pending w \<Rightarrow> P w)"

definition quiet :: "world \<Rightarrow> bool" where
  "quiet w \<longleftrightarrow> test_counts (trace w) = []"

definition zero_counts :: "world \<Rightarrow> bool" where
  "zero_counts w \<longleftrightarrow> set (test_counts (trace w)) \<subseteq> {0}"

text \<open>Whether the last call of a trace is an \<^verbatim>\<open>mlock\<close>. At the end of acquisition on the
  heap path this tells that pinning was attempted on the block that is kept: a block that
  is allocated with pinning off comes from calls of \<^verbatim>\<open>malloc\<close> that follow the \<^verbatim>\<open>free\<close> of the
  permission failure.\<close>

definition ends_with_mlock :: "event list \<Rightarrow> bool" where
  "ends_with_mlock tr = (case rev tr of EvMlock p n # _ \<Rightarrow> True | _ \<Rightarrow> False)"

text \<open>The request after a failed mapping as the specification words it: clamped to the
  free huge pages when they amount to less than the request, one page less otherwise.\<close>

definition clamp_or_shrink :: "clong \<Rightarrow> size_t \<Rightarrow> size_t \<Rightarrow> size_t" where
  "clamp_or_shrink free_hugepages page want =
     (if free_hugepages * page < want then free_hugepages * page else want - page)"

section \<open>Sample runs\<close>

text \<open>Concrete states and recorded answers, used to exercise the theorems below.\<close>

definition heap_before :: memory_alloc where
  "heap_before =
     alloc_init\<lparr>pagesize := 4096, pagesizemask := NOT (4096 - 1), wantbytes := 8192\<rparr>"

definition heap_answers :: world where
  "heap_answers =
     \<lparr>mallocs = [0x10010], mmaps = [], mlocks = [MlockOk], verdicts = [], trace = []\<rparr>"

definition heap_after :: memory_alloc where
  "heap_after = heap_before\<lparr>buf := 0x10010, aligned := 0x11000, bufsize := 4112\<rparr>"

definition refused :: "errno \<Rightarrow> world" where
  "refused e =
     \<lparr>mallocs = [0x10010, 0x20000], mmaps = [], mlocks = [MlockErr e, MlockOk],
      verdicts = [], trace = []\<rparr>"

definition odd_cfg :: config where
  "odd_cfg =
     \<lparr>cfg_sc_page_size = 4096, cfg_hugepages = False, cfg_use_phys = False,
      cfg_physaddrbase = 0, cfg_opened = False, cfg_hp_file = NoFile, cfg_request = 4097,
      cfg_loops = 1, cfg_testmask = 0\<rparr>"

definition odd_answers :: world where
  "odd_answers =
     \<lparr>mallocs = [0x10000], mmaps = [], mlocks = [MlockOk], verdicts = [], trace = []\<rparr>"

definition odd_region :: memory_alloc where
  "odd_region =
     \<lparr>buf = 0x10000, aligned = 0x10000, wantbytes = 4097, bufsize = 4097, do_mlock = True,
      use_hugepages = False, pagesize = 4096, pagesizemask = NOT (4096 - 1)\<rparr>"

definition phys_cfg :: config where
  "phys_cfg =
     \<lparr>cfg_sc_page_size = 4096, cfg_hugepages = False, cfg_use_phys = True,
      cfg_physaddrbase = 0x80000000, cfg_opened = True, cfg_hp_file = NoFile,
      cfg_request = 8192, cfg_loops = 1, cfg_testmask = 0\<rparr>"

definition phys_answers :: "mmap_res \<Rightarrow> mlock_res \<Rightarrow> world" where
  "phys_answers r m = \<lparr>mallocs = [], mmaps = [r], mlocks = [m], verdicts = [], trace = []\<rparr>"

definition two_verdicts :: world where
  "two_verdicts = \<lparr>mallocs = [], mmaps = [], mlocks = [], verdicts = [0, 1, 0], trace = []\<rparr>"

definition faulty_cfg :: config where
  "faulty_cfg = odd_cfg\<lparr>cfg_request := 8192, cfg_loops := 2, cfg_testmask := 3\<rparr>"

definition faulty_answers :: world where
  "faulty_answers =
     \<lparr>mallocs = [0x10010], mmaps = [], mlocks = [MlockOk], verdicts = [0, 1, 0, 1, 0, 0],
      trace = []\<rparr>"

definition faulty_region :: memory_alloc where
  "faulty_region = heap_after\<lparr>bufsize := 32\<rparr>"

definition small_cfg :: config where
  "small_cfg = odd_cfg\<lparr>cfg_request := 100\<rparr>"

definition huge_cfg :: config where
  "huge_cfg =
     \<lparr>cfg_sc_page_size = 4096, cfg_hugepages = True, cfg_use_phys = False,
      cfg_physaddrbase = 0, cfg_opened = False, cfg_hp_file = Counter 8,
      cfg_request = 4194304, cfg_loops = 1, cfg_testmask = 1\<rparr>"

definition huge_answers :: world where
  "huge_answers =
     \<lparr>mallocs = [], mmaps = [MapOk 0x7f0000200000], mlocks = [], verdicts = [0, 0],
      trace = []\<rparr>"

definition huge_region :: memory_alloc where
  "huge_region =
     \<lparr>buf = 0x7f0000200000, aligned = 0x7f0000200000, wantbytes = 4194304, bufsize = 0,
      do_mlock = True, use_hugepages = True, pagesize = 2097152,
      pagesizemask = NOT (2097152 - 1)\<rparr>"

definition huge_end :: world where
  "huge_end =
     \<lparr>mallocs = [], mmaps = [], mlocks = [], verdicts = [],
      trace = [EvMmapHuge 4194304, EvStuckAddress 0x7f0000200000 0,
        EvTest ''Random Value'' 0x7f0000200000 0x7f0000200000 0,
        EvMemset 0x7f0000200000 4194304, EvMunlock 0x7f0000200000 0]\<rparr>"

definition none_free_cfg :: config where
  "none_free_cfg = huge_cfg\<lparr>cfg_hp_file := Counter 0\<rparr>"

definition none_free_answers :: world where
  "none_free_answers =
     \<lparr>mallocs = [], mmaps = [MapErr ENOMEM, MapOk 0x7f0000200000], mlocks = [],
      verdicts = [], trace = []\<rparr>"

definition huge_before :: memory_alloc where
  "huge_before =
     \<lparr>buf = 0, aligned = 0, wantbytes = 4194304 + 5, bufsize = 0, do_mlock = True,
      use_hugepages = True, pagesize = 2097152, pagesizemask = NOT (2097152 - 1)\<rparr>"

definition degrade_answers :: world where
  "degrade_answers =
     \<lparr>mallocs = [], mmaps = [MapErr ENOMEM, MapOk 0x7f0000200000], mlocks = [],
      verdicts = [], trace = []\<rparr>"

definition exhausted_cfg :: config where
  "exhausted_cfg = huge_cfg\<lparr>cfg_request := 2097152, cfg_hp_file := Counter 0\<rparr>"

definition exhausted_answers :: world where
  "exhausted_answers =
     \<lparr>mallocs = [], mmaps = [MapErr ENOMEM], mlocks = [], verdicts = [0, 0], trace = []\<rparr>"

definition shrunk_cfg :: config where
  "shrunk_cfg = odd_cfg\<lparr>cfg_request := 12288\<rparr>"

definition shrunk_answers :: world where
  "shrunk_answers =
     \<lparr>mallocs = [0x10010, 0x20010], mmaps = [], mlocks = [MlockErr EAGAIN, MlockOk],
      verdicts = [], trace = []\<rparr>"

definition shrunk_region :: memory_alloc where
  "shrunk_region =
     \<lparr>buf = 0x20010, aligned = 0x21000, wantbytes = 8192, bufsize = 32, do_mlock = True,
      use_hugepages = False, pagesize = 4096, pagesizemask = NOT (4096 - 1)\<rparr>"

definition gone_cfg :: config where
  "gone_cfg = odd_cfg\<lparr>cfg_request := 4096\<rparr>"

definition gone_answers :: world where
  "gone_answers = \<lparr>mallocs = [0], mmaps = [], mlocks = [MlockOk], verdicts = [], trace = []\<rparr>"

definition gone_region :: memory_alloc where
  "gone_region =
     \<lparr>buf = 0, aligned = 0, wantbytes = 0, bufsize = 0, do_mlock = True,
      use_hugepages = False, pagesize = 4096, pagesizemask = NOT (4096 - 1)\<rparr>"

definition unpinned_answers :: world where
  "unpinned_answers =
     \<lparr>mallocs = [0x10000, 0, 0x10010], mmaps = [], mlocks = [MlockErr EPERM], verdicts = [],
      trace = []\<rparr>"

definition unpinned_region :: memory_alloc where
  "unpinned_region =
     \<lparr>buf = 0x10010, aligned = 0x11000, wantbytes = 1, bufsize = - 4079, do_mlock = False,
      use_hugepages = False, pagesize = 4096, pagesizemask = NOT (4096 - 1)\<rparr>"

definition once_cfg :: config where
  "once_cfg = faulty_cfg\<lparr>cfg_loops := 1\<rparr>"

definition unknown_answers :: world where
  "unknown_answers =
     \<lparr>mallocs = [0x10010], mmaps = [], mlocks = [MlockErr EOTHER], verdicts = [0, 0, 0],
      trace = []\<rparr>"

definition unknown_region :: memory_alloc where
  "unknown_region = faulty_region\<lparr>do_mlock := False\<rparr>"

definition restart_answers :: world where
  "restart_answers =
     \<lparr>mallocs = [0x10010, 0x20010], mmaps = [], mlocks = [MlockErr EPERM], verdicts = [],
      trace = []\<rparr>"

definition restart_region :: memory_alloc where
  "restart_region =
     \<lparr>buf = 0x20010, aligned = 0x21000, wantbytes = 8192, bufsize = 4112, do_mlock = False,
      use_hugepages = False, pagesize = 4096, pagesizemask = NOT (4096 - 1)\<rparr>"

section \<open>Auxiliary facts\<close>

subsection \<open>Conversions between the integer types\<close>

lemma ucast_sub_down: "(ucast (x - y :: 64 word) :: 32 word) = ucast x - ucast y"
proof -
  have key: "take_bit 32 (k - l) = take_bit 32 (take_bit 64 k - take_bit 64 l)" for k l :: int
  proof -
    have "take_bit 32 (take_bit 64 k - take_bit 64 l)
        = take_bit 32 (take_bit 32 (take_bit 64 k) - take_bit 32 (take_bit 64 l))"
      by (rule take_bit_diff [symmetric])
    also have "\<dots> = take_bit 32 (take_bit 32 k - take_bit 32 l)" by simp
    also have "\<dots> = take_bit 32 (k - l)" by (rule take_bit_diff)
    finally show ?thesis by simp
  qed
  show ?thesis
    apply transfer
    subgoal for x y using key [of x y] by (simp add: take_bit_diff)
    done
qed

lemma ucast_scast_down: "(ucast (scast (b :: 32 word) :: 64 word) :: 32 word) = b"
  by (rule bit_word_eqI) (auto simp add: bit_simps)

lemma int_sub_skip: "(ucast ((scast (b :: cint) :: size_t) - s) :: cint) = b - ucast s"
  by (simp add: ucast_sub_down ucast_scast_down)

lemma mask_align: "(x :: 64 word) AND NOT (2 ^ k - 1) = x - x mod 2 ^ k"
proof -
  have "x - take_bit k x = x AND NOT (take_bit k x)"
    by (rule disjunctive_diff) (simp add: bit_take_bit_iff)
  also have "\<dots> = x AND NOT (mask k)"
    by (rule bit_word_eqI) (auto simp: bit_simps)
  finally show ?thesis
    by (simp add: take_bit_eq_mod mask_eq_decr_exp)
qed

lemma wantmb_within_maxmb:
  "\<not> drop_bit 20 (x :: 64 word) > drop_bit 20 (- 1 :: 64 word) + 1"
proof -
  have "unat x < 2 ^ 64"
    using unsigned_less [of x, where ?'a = nat] by simp
  then have "unat x div 2 ^ 20 < 2 ^ 44"
    by simp
  moreover have "unat (drop_bit 20 x) = unat x div 2 ^ 20"
    unfolding unat_drop_bit_eq by (rule drop_bit_eq_div)
  ultimately have "unat (drop_bit 20 x) < 2 ^ 44"
    by simp
  moreover have "drop_bit 20 (- 1 :: 64 word) + 1 = 2 ^ 44"
    by (simp add: mask_eq_exp_minus_1)
  ultimately show ?thesis by (simp add: word_less_nat_alt)
qed

subsection \<open>The heap path\<close>

lemma malloc_while_keeps:
  "malloc_while a w = Returns (a', w') \<Longrightarrow>
     do_mlock a' = do_mlock a \<and> pagesize a' = pagesize a \<and> pagesizemask a' = pagesizemask a
     \<and> use_hugepages a' = use_hugepages a \<and> mlocks w' = mlocks w \<and> mmaps w' = mmaps w
     \<and> verdicts w' = verdicts w"
proof (induction a w rule: malloc_while.induct)
  case (1 a w)
  show ?case
  proof (cases "buf a = 0 \<and> wantbytes a \<noteq> 0")
    case False
    with "1.prems" show ?thesis by (simp add: malloc_while.simps [of a w])
  next
    case True
    show ?thesis
    proof (cases "mallocs w")
      case Nil
      with True "1.prems" show ?thesis by (simp add: malloc_while.simps [of a w])
    next
      case (Cons p ps)
      with True "1.prems" "1.IH" [OF True Cons refl refl refl] show ?thesis
        by (simp add: malloc_while.simps [of a w] Let_def called_def)
    qed
  qed
qed

lemma malloc_while_no_exit: "malloc_while a w \<noteq> Exits c w'"
proof (induction a w rule: malloc_while.induct)
  case (1 a w)
  show ?case
  proof (cases "buf a = 0 \<and> wantbytes a \<noteq> 0")
    case False
    then show ?thesis by (auto simp add: malloc_while.simps [of a w])
  next
    case True
    show ?thesis
    proof (cases "mallocs w")
      case Nil
      with True show ?thesis by (simp add: malloc_while.simps [of a w])
    next
      case (Cons p ps)
      with True "1.IH" [OF True Cons refl refl refl] show ?thesis
        by (simp add: malloc_while.simps [of a w] Let_def)
    qed
  qed
qed

text \<open>With a power of two as page size and the mask \<^verbatim>\<open>memtester_pagesize\<close> computes, the
  boundary the alignment block moves to is the next page boundary above \<open>buf\<close>.\<close>

lemma skip_distance:
  assumes "pagesize a = 2 ^ k" and "pagesizemask a = NOT (2 ^ k - 1)"
    and "buf a mod pagesize a \<noteq> 0"
  shows "aligned (align_to_page a) - buf a = 2 ^ k - buf a mod 2 ^ k"
  using assms by (simp add: align_to_page_def Let_def mask_align)

lemma heap_run:
  "alloc_using_malloc heap_before 8192 heap_answers =
     Returns (heap_after, \<lparr>mallocs = [], mmaps = [], mlocks = [], verdicts = [],
        trace = [EvMalloc 8192, EvMlock 0x11000 4112]\<rparr>, 1)"
  by (simp add: heap_before_def heap_answers_def heap_after_def alloc_using_malloc_def
      malloc_while.simps alloc_init_def Let_def called_def align_to_page_def)

lemma refused_first:
  "malloc_while heap_before (refused e) =
     Returns (heap_before\<lparr>buf := 0x10010\<rparr>,
       \<lparr>mallocs = [0x20000], mmaps = [], mlocks = [MlockErr e, MlockOk], verdicts = [],
        trace = [EvMalloc 8192]\<rparr>)"
  by (simp add: heap_before_def refused_def malloc_while.simps alloc_init_def Let_def called_def)

lemma odd_run:
  "acquire odd_cfg odd_answers =
     Returns (odd_region, \<lparr>mallocs = [], mmaps = [], mlocks = [], verdicts = [],
       trace = [EvMalloc 4097, EvMlock 0x10000 4097]\<rparr>)"
  by (simp add: acquire_def setup_alloc_def memtester_pagesize_def and_then_def odd_cfg_def
      odd_answers_def odd_region_def alloc_init_def Let_def malloc_retry.simps
      alloc_using_malloc_def malloc_while.simps called_def align_to_page_def
      mask_eq_exp_minus_1)

lemma halflen_nonneg:
  assumes "0 \<le> sint (bufsize a)"
  shows "uint (halflen (split_region a)) = sint (bufsize a) div 2"
proof -
  have "sint (bufsize a) < 2 ^ 31"
    using sint_lt [of "bufsize a"] by simp
  with assms have "0 \<le> sint (bufsize a) div 2" "sint (bufsize a) div 2 < 2 ^ 64"
    by auto
  then have "take_bit 64 (sint (bufsize a) div 2) = sint (bufsize a) div 2"
    by (simp add: take_bit_int_eq_self)
  moreover from assms have "sint (bufsize a) sdiv 2 = sint (bufsize a) div 2"
    by (simp add: signed_divide_int_def sgn_if)
  ultimately show ?thesis
    by (simp add: split_region_def Let_def uint_word_of_int_eq)
qed

lemma setup_alloc_Returns:
  assumes "cfg_sc_page_size cfg \<noteq> - 1"
  shows "setup_alloc cfg w =
     Returns (alloc_init\<lparr>use_hugepages := cfg_hugepages cfg,
        pagesize := (if cfg_hugepages cfg then 2 * 1024 * 1024 else cfg_sc_page_size cfg),
        pagesizemask := NOT ((if cfg_hugepages cfg then 2 * 1024 * 1024
                              else cfg_sc_page_size cfg) - 1)\<rparr>)"
  using assms
  by (simp add: setup_alloc_def memtester_pagesize_def and_then_def alloc_init_def)

lemma wantmb_within_maxmb_mask: "\<not> mask 44 + 1 < drop_bit 20 (x :: 64 word)"
  using wantmb_within_maxmb [of x] by simp

lemma hugepages_while_done:
  "buf a \<noteq> 0 \<Longrightarrow> hugepages_while f a w = Returns (a, w)"
  by (simp add: hugepages_while.simps [of f a w])

subsection \<open>The test driver\<close>

lemma scast_push_bit_1:
  "i < 31 \<Longrightarrow> (scast (push_bit i (1 :: 32 word)) :: 64 word) = push_bit i 1"
  by (rule bit_word_eqI) (auto simp add: bit_simps)

lemma scast_exp: "i < 31 \<Longrightarrow> (scast ((2 :: 32 word) ^ i) :: 64 word) = 2 ^ i"
  using scast_push_bit_1 [of i] by simp

lemma skipped_iff: "i < 31 \<Longrightarrow> skipped testmask i \<longleftrightarrow> \<not> (testmask = 0 \<or> bit testmask i)"
  by (simp add: skipped_def scast_exp bit_iff_and_push_bit_not_eq_0 and.commute)

lemma picked_Cons:
  "picked m i (n # ns) = (if m = 0 \<or> bit m i then n # picked m (Suc i) ns else picked m (Suc i) ns)"
  by (simp add: picked_def)

lemma other_flag_Cons:
  "e OR other_flag (v # vs) = (if v = 0 then e else e OR EXIT_FAIL_OTHERTEST) OR other_flag vs"
  by (simp add: other_flag_def or.assoc)

lemma run_tests_enough:
  assumes "i + length ns \<le> 31"
    and "length (picked m i ns) \<le> length (verdicts w)"
  shows "run_tests (map Some ns @ None # rest) i m a b e w =
     Returns (e OR other_flag (take (length (picked m i ns)) (verdicts w)),
       w\<lparr>verdicts := drop (length (picked m i ns)) (verdicts w),
         trace := trace w @ concat (map (test_events a b) (picked m i ns))\<rparr>)"
  using assms
proof (induction ns arbitrary: i e w)
  case Nil
  then show ?case by (simp add: picked_def other_flag_def)
next
  case (Cons n ns)
  from Cons.prems have i: "i < 31" and rest: "Suc i + length ns \<le> 31" by simp_all
  show ?case
  proof (cases "m = 0 \<or> bit m i")
    case False
    with i have "skipped m i" by (simp add: skipped_iff)
    moreover from False Cons.prems have "length (picked m (Suc i) ns) \<le> length (verdicts w)"
      by (simp add: picked_Cons)
    ultimately show ?thesis
      using Cons.IH [OF rest, of w e] False by (simp add: picked_Cons)
  next
    case True
    with i have run: "\<not> skipped m i" by (simp add: skipped_iff)
    from True Cons.prems obtain v vs where vs: "verdicts w = v # vs"
      and enough: "length (picked m (Suc i) ns) \<le> length vs"
      by (cases "verdicts w") (auto simp: picked_Cons)
    define w2 where "w2 = called (EvMemset (buf a) (wantbytes a))
      (called (EvTest n (bufa b) (bufb b) (count b)) (w\<lparr>verdicts := vs\<rparr>))"
    have w2: "verdicts w2 = vs" "trace w2 = trace w @ test_events a b n"
      by (simp_all add: w2_def called_def test_events_def)
    from enough w2 have "length (picked m (Suc i) ns) \<le> length (verdicts w2)" by simp
    from Cons.IH [OF rest this, of "if v = 0 then e else e OR EXIT_FAIL_OTHERTEST"]
    have "run_tests (map Some ns @ None # rest) (Suc i) m a b
        (if v = 0 then e else e OR EXIT_FAIL_OTHERTEST) w2 =
      Returns ((if v = 0 then e else e OR EXIT_FAIL_OTHERTEST)
          OR other_flag (take (length (picked m (Suc i) ns)) vs),
        w\<lparr>verdicts := drop (length (picked m (Suc i) ns)) vs,
          trace := trace w @ test_events a b n
            @ concat (map (test_events a b) (picked m (Suc i) ns))\<rparr>)"
      by (simp add: w2) (simp add: w2_def called_def)
    with run vs True show ?thesis
      by (simp add: picked_Cons Let_def w2_def other_flag_Cons del: other_flag_def)
  qed
qed

lemma tests_table: "tests = map Some test_names @ None # []"
  by (simp add: test_names_def tests_def)

lemma length_test_names: "length test_names = 15"
  by (simp add: test_names_def tests_def)

lemma one_pass_enough:
  assumes "Suc (length (selected m)) \<le> length (verdicts w)"
  shows "one_pass m a (split_region a) e w =
     Returns (e OR address_flag (take 1 (verdicts w))
                OR other_flag (take (length (selected m)) (drop 1 (verdicts w))),
       w\<lparr>verdicts := drop (Suc (length (selected m))) (verdicts w),
         trace := trace w @ pass_events m a\<rparr>)"
proof -
  from assms obtain v vs where vs: "verdicts w = v # vs"
    and enough: "length (picked m 0 test_names) \<le> length vs"
    by (cases "verdicts w") (auto simp: selected_def)
  define w1 where "w1 = called (EvStuckAddress (aligned a) (scast (bufsize a) div sizeof_ul))
      (w\<lparr>verdicts := vs\<rparr>)"
  have w1: "verdicts w1 = vs" by (simp add: w1_def called_def)
  have "0 + length test_names \<le> 31" by (simp add: length_test_names)
  from run_tests_enough [OF this, of m w1 "[]" a "split_region a"] enough w1
  have "run_tests tests 0 m a (split_region a)
      (if v = 0 then e else e OR EXIT_FAIL_ADDRESSLINES) w1 =
    Returns ((if v = 0 then e else e OR EXIT_FAIL_ADDRESSLINES)
        OR other_flag (take (length (picked m 0 test_names)) vs),
      w1\<lparr>verdicts := drop (length (picked m 0 test_names)) vs,
        trace := trace w1 @ concat (map (test_events a (split_region a)) (picked m 0 test_names))\<rparr>)"
    by (simp add: tests_table)
  with vs show ?thesis
    by (simp add: one_pass_def Let_def w1_def [symmetric] selected_def)
      (simp add: w1_def called_def pass_events_def selected_def address_flag_def or.assoc)
qed

lemma address_flag_append: "address_flag (xs @ ys) = address_flag xs OR address_flag ys"
  by (auto simp: address_flag_def)

lemma other_flag_append: "other_flag (xs @ ys) = other_flag xs OR other_flag ys"
  by (auto simp: other_flag_def)

lemma test_loop_enough:
  assumes "loops \<noteq> 0" and "loops \<noteq> - 1"
    and "unat loop + n = Suc (unat loops)"
    and "n * Suc (length (selected m)) \<le> length (verdicts w)"
  shows "test_loop loops loop m a (split_region a) e w =
     Returns (e OR address_flag (stuck_verdicts (length (selected m)) n (verdicts w))
                OR other_flag (pattern_verdicts (length (selected m)) n (verdicts w)),
       w\<lparr>verdicts := drop (n * Suc (length (selected m))) (verdicts w),
         trace := trace w @ concat (replicate n (pass_events m a))\<rparr>)"
  using assms(3,4)
proof (induction n arbitrary: loop e w)
  case 0
  then have "\<not> loop \<le> loops" by (simp add: word_le_nat_alt)
  with \<open>loops \<noteq> 0\<close> show ?case
    by (simp add: test_loop.simps [of loops loop] address_flag_def other_flag_def)
next
  case (Suc n)
  let ?k = "length (selected m)"
  from Suc.prems have le: "loop \<le> loops" by (simp add: word_le_nat_alt)
  from \<open>loops \<noteq> - 1\<close> have "unat loops < 2 ^ 64 - 1"
  proof -
    have "unat loops < 2 ^ 64"
      using unsigned_less [of loops, where ?'a = nat] by simp
    moreover have "unat (- 1 :: 64 word) = 2 ^ 64 - 1"
      by (simp add: unsigned_minus_1_eq_mask mask_eq_exp_minus_1)
    with \<open>loops \<noteq> - 1\<close> have "unat loops \<noteq> 2 ^ 64 - 1"
      by (metis word_unat_eq_iff)
    ultimately show ?thesis by simp
  qed
  with Suc.prems have next_loop: "unat (loop + 1) + n = Suc (unat loops)"
    by (simp add: unat_word_ariths)
  from Suc.prems have pass: "Suc ?k \<le> length (verdicts w)" by simp
  define e1 where "e1 = e OR address_flag (take 1 (verdicts w))
      OR other_flag (take ?k (drop 1 (verdicts w)))"
  define w1 where "w1 = w\<lparr>verdicts := drop (Suc ?k) (verdicts w),
      trace := trace w @ pass_events m a\<rparr>"
  from Suc.prems have "n * Suc ?k \<le> length (verdicts w1)" by (simp add: w1_def)
  from Suc.IH [OF next_loop this, of e1] le one_pass_enough [OF pass, of a e]
  show ?case
    by (simp add: test_loop.simps [of loops loop] e1_def [symmetric] w1_def [symmetric])
      (simp add: e1_def w1_def address_flag_append other_flag_append ac_simps
        drop_drop add.commute)
qed

lemma test_names_list:
  "test_names =
     [''Random Value'', ''Compare XOR'', ''Compare SUB'', ''Compare MUL'', ''Compare DIV'',
      ''Compare OR'', ''Compare AND'', ''Sequential Increment'', ''Solid Bits'',
      ''Block Sequential'', ''Checkerboard'', ''Bit Spread'', ''Bit Flip'', ''Walking Ones'',
      ''Walking Zeroes'']"
  by (simp add: test_names_def tests_def)

lemma selected_0: "selected 0 = test_names"
proof -
  have "picked 0 i ns = ns" for i ns
    by (induction ns arbitrary: i) (simp_all add: picked_def)
  then show ?thesis by (simp add: selected_def)
qed

lemma selected_3: "selected 3 = [''Random Value'', ''Compare XOR'']"
  by (simp add: selected_def test_names_list picked_Cons) (simp add: picked_def)

lemma run_tests_no_exit: "run_tests ts i m a b e w \<noteq> Exits c w'"
proof (induction ts arbitrary: i e w)
  case Nil
  show ?case by simp
next
  case (Cons t ts)
  show ?case
  proof (cases t)
    case None
    then show ?thesis by simp
  next
    case (Some name)
    with Cons.IH show ?thesis
      by (cases "verdicts w") (simp_all add: Let_def)
  qed
qed

lemma one_pass_no_exit: "one_pass m a b e w \<noteq> Exits c w'"
  by (cases "verdicts w") (simp_all add: one_pass_def Let_def run_tests_no_exit)

lemma test_loop_unbounded:
  assumes "loops = 0 \<or> loops = - 1"
  shows "\<exists>w'. test_loop loops loop m a b e w = Pending w'"
  using assms
proof (induction loops loop m a b e w rule: test_loop.induct)
  case (1 loops loop testmask a b exit_code w)
  from "1.prems" have go: "loops = 0 \<or> loop \<le> loops" by auto
  show ?case
  proof (cases "one_pass testmask a b exit_code w")
    case (Returns x)
    obtain e' w' where x: "x = (e', w')" by (cases x)
    from "1.IH" [OF go Returns x [symmetric] "1.prems"] go Returns x show ?thesis
      by (simp add: test_loop.simps [of loops loop])
  next
    case (Exits c w')
    then show ?thesis by (simp add: one_pass_no_exit)
  next
    case (Pending w')
    with go show ?thesis by (simp add: test_loop.simps [of loops loop])
  qed
qed

lemma passes_exact:
  assumes "cfg_loops cfg \<noteq> 0" and "cfg_loops cfg \<noteq> - 1"
    and "unat (cfg_loops cfg) * Suc (length (selected (cfg_testmask cfg))) \<le> length (verdicts w)"
  shows "run_loops cfg a w =
     Exits (address_flag (stuck_verdicts (length (selected (cfg_testmask cfg)))
                (unat (cfg_loops cfg)) (verdicts w))
            OR other_flag (pattern_verdicts (length (selected (cfg_testmask cfg)))
                (unat (cfg_loops cfg)) (verdicts w)))
       (w\<lparr>verdicts := drop (unat (cfg_loops cfg) * Suc (length (selected (cfg_testmask cfg))))
                         (verdicts w),
          trace := trace w
            @ concat (replicate (unat (cfg_loops cfg)) (pass_events (cfg_testmask cfg) a))
            @ (if do_mlock a then [EvMunlock (aligned a) (scast (bufsize a))] else [])\<rparr>)"
proof -
  have "unat (1 :: ul) + unat (cfg_loops cfg) = Suc (unat (cfg_loops cfg))" by simp
  from test_loop_enough [OF assms(1,2) this assms(3), of a 0] show ?thesis
    by (simp add: run_loops_def and_then_def called_def)
qed

lemma loops_zero_never_exits:
  "\<exists>w'. run_loops (cfg\<lparr>cfg_loops := 0\<rparr>) a w = Pending w'"
proof -
  from test_loop_unbounded [of 0 1 "cfg_testmask cfg" a "split_region a" 0 w]
  obtain w' where "test_loop 0 1 (cfg_testmask cfg) a (split_region a) 0 w = Pending w'"
    by auto
  then show ?thesis by (simp add: run_loops_def and_then_def)
qed

subsection \<open>Calls of the tests in a trace\<close>

lemma test_counts_append: "test_counts (xs @ ys) = test_counts xs @ test_counts ys"
  by (simp add: test_counts_def map_filter_def)

lemma quiet_called: "quiet w \<Longrightarrow> word_count e = None \<Longrightarrow> quiet (called e w)"
  by (simp add: quiet_def called_def test_counts_append) (simp add: test_counts_def map_filter_def)

lemma quiet_update [simp]:
  "quiet (w\<lparr>mallocs := x\<rparr>) = quiet w" "quiet (w\<lparr>mmaps := y\<rparr>) = quiet w"
  "quiet (w\<lparr>mlocks := z\<rparr>) = quiet w" "quiet (w\<lparr>verdicts := v\<rparr>) = quiet w"
  by (simp_all add: quiet_def)

lemma malloc_while_quiet: "quiet w \<Longrightarrow> all_ends quiet snd (malloc_while a w)"
proof (induction a w rule: malloc_while.induct)
  case (1 a w)
  show ?case
  proof (cases "buf a = 0 \<and> wantbytes a \<noteq> 0")
    case False
    with "1.prems" show ?thesis by (auto simp add: malloc_while.simps [of a w] all_ends_def)
  next
    case True
    show ?thesis
    proof (cases "mallocs w")
      case Nil
      with True "1.prems" show ?thesis by (simp add: malloc_while.simps [of a w] all_ends_def)
    next
      case (Cons p ps)
      from "1.prems" have "quiet (called (EvMalloc (wantbytes a)) (w\<lparr>mallocs := ps\<rparr>))"
        by (simp add: quiet_called word_count_def)
      with True Cons "1.IH" [OF True Cons refl refl refl] show ?thesis
        by (simp add: malloc_while.simps [of a w] Let_def)
    qed
  qed
qed

lemma alloc_using_malloc_quiet:
  assumes "quiet w"
  shows "all_ends quiet (\<lambda>(a, w, r). w) (alloc_using_malloc a orig w)"
proof (cases "malloc_while a w")
  case (Returns x)
  obtain a1 w1 where x: "x = (a1, w1)" by (cases x)
  from malloc_while_quiet [OF assms, of a] Returns x have q: "quiet w1"
    by (simp add: all_ends_def)
  then have q2: "quiet (called (EvMlock p n) (w1\<lparr>mlocks := rs\<rparr>))" for p n rs
    by (simp add: quiet_called word_count_def)
  then have q3: "quiet (called (EvFree p') (called (EvMlock p n) (w1\<lparr>mlocks := rs\<rparr>)))"
    for p' p n rs
    by (simp add: quiet_called word_count_def)
  from Returns x q q2 q3 show ?thesis
    by (auto simp: alloc_using_malloc_def Let_def all_ends_def mlock_failed_def
        split: list.splits mlock_res.splits errno.splits)
next
  case (Exits c w')
  with malloc_while_quiet [OF assms, of a] show ?thesis
    by (simp add: alloc_using_malloc_def all_ends_def)
next
  case (Pending w')
  with malloc_while_quiet [OF assms, of a] show ?thesis
    by (simp add: alloc_using_malloc_def all_ends_def)
qed

lemma alloc_using_malloc_no_exit: "alloc_using_malloc a orig w \<noteq> Exits c w'"
  by (auto simp: alloc_using_malloc_def Let_def malloc_while_no_exit
      split: outcome.splits list.splits mlock_res.splits)

lemma malloc_retry_quiet: "quiet w \<Longrightarrow> all_ends quiet snd (malloc_retry orig a w)"
proof (induction orig a w rule: malloc_retry.induct)
  case (1 orig a w)
  note q = alloc_using_malloc_quiet [OF "1.prems", of a orig]
  show ?case
  proof (cases "alloc_using_malloc a orig w")
    case (Returns x)
    obtain a' w' r where x: "x = (a', w', r)" by (cases x)
    with q Returns have "quiet w'" by (simp add: all_ends_def)
    with Returns x "1.IH" [OF Returns, of a' "(w', r)" w' r] show ?thesis
      by (simp add: malloc_retry.simps [of orig a w] all_ends_def)
  next
    case (Exits c w')
    with q show ?thesis by (simp add: malloc_retry.simps [of orig a w] all_ends_def)
  next
    case (Pending w')
    with q show ?thesis by (simp add: malloc_retry.simps [of orig a w] all_ends_def)
  qed
qed

lemma malloc_retry_no_exit: "malloc_retry orig a w \<noteq> Exits c w'"
proof (induction orig a w rule: malloc_retry.induct)
  case (1 orig a w)
  show ?case
  proof (cases "alloc_using_malloc a orig w")
    case (Returns x)
    obtain a' w' r where x: "x = (a', w', r)" by (cases x)
    with Returns "1.IH" [OF Returns, of a' "(w', r)" w' r] show ?thesis
      by (simp add: malloc_retry.simps [of orig a w])
  next
    case (Exits c w')
    then show ?thesis by (simp add: alloc_using_malloc_no_exit)
  next
    case (Pending w')
    then show ?thesis by (simp add: malloc_retry.simps [of orig a w])
  qed
qed

subsection \<open>The huge-page and physical-device paths\<close>

lemma hugepages_while_quiet: "quiet w \<Longrightarrow> all_ends quiet snd (hugepages_while f a w)"
proof (induction f a w rule: hugepages_while.induct)
  case (1 f a w)
  show ?case
  proof (cases "buf a = 0 \<and> wantbytes a \<noteq> 0")
    case False
    with "1.prems" show ?thesis
      by (auto simp add: hugepages_while.simps [of f a w] all_ends_def)
  next
    case True
    show ?thesis
    proof (cases "mmaps w")
      case Nil
      with True "1.prems" show ?thesis
        by (simp add: hugepages_while.simps [of f a w] all_ends_def)
    next
      case (Cons r rs)
      from "1.prems" have q: "quiet (called (EvMmapHuge (wantbytes a)) (w\<lparr>mmaps := rs\<rparr>))"
        by (simp add: quiet_called word_count_def)
      show ?thesis
      proof (cases r)
        case (MapOk p)
        with True Cons q "1.IH"(1) [OF True Cons refl MapOk] show ?thesis
          by (simp add: hugepages_while.simps [of f a w] Let_def)
      next
        case (MapErr e)
        with True Cons q "1.IH"(2) [OF True Cons refl MapErr _ refl] show ?thesis
          by (simp add: hugepages_while.simps [of f a w] Let_def all_ends_def)
      qed
    qed
  qed
qed

lemma hugepages_while_Exits: "hugepages_while f a w = Exits c w' \<Longrightarrow> c = EXIT_FAILURE"
proof (induction f a w rule: hugepages_while.induct)
  case (1 f a w)
  show ?case
  proof (cases "buf a = 0 \<and> wantbytes a \<noteq> 0")
    case False
    with "1.prems" show ?thesis
      by (auto simp add: hugepages_while.simps [of f a w])
  next
    case True
    show ?thesis
    proof (cases "mmaps w")
      case Nil
      with True "1.prems" show ?thesis
        by (simp add: hugepages_while.simps [of f a w])
    next
      case (Cons r rs)
      show ?thesis
      proof (cases r)
        case (MapOk p)
        with True Cons "1.prems" "1.IH"(1) [OF True Cons refl MapOk] show ?thesis
          by (simp add: hugepages_while.simps [of f a w] Let_def)
      next
        case (MapErr e)
        with True Cons "1.prems" "1.IH"(2) [OF True Cons refl MapErr _ refl] show ?thesis
          by (simp add: hugepages_while.simps [of f a w] Let_def split: if_splits)
      qed
    qed
  qed
qed

lemma hugepages_while_Returns:
  "hugepages_while f a w = Returns (a', w') \<Longrightarrow>
     bufsize a' = bufsize a \<and> pagesize a' = pagesize a \<and> do_mlock a' = do_mlock a
     \<and> verdicts w' = verdicts w
     \<and> (buf a' = buf a \<or> buf a' = 0 \<or> MapOk (buf a') \<in> set (mmaps w))"
proof (induction f a w rule: hugepages_while.induct)
  case (1 f a w)
  show ?case
  proof (cases "buf a = 0 \<and> wantbytes a \<noteq> 0")
    case False
    with "1.prems" show ?thesis
      by (auto simp add: hugepages_while.simps [of f a w])
  next
    case True
    show ?thesis
    proof (cases "mmaps w")
      case Nil
      with True "1.prems" show ?thesis
        by (simp add: hugepages_while.simps [of f a w])
    next
      case (Cons r rs)
      show ?thesis
      proof (cases r)
        case (MapOk p)
        with True Cons "1.prems" "1.IH"(1) [OF True Cons refl MapOk] show ?thesis
          by (auto simp add: hugepages_while.simps [of f a w] Let_def called_def)
      next
        case (MapErr e)
        with True Cons "1.prems" "1.IH"(2) [OF True Cons refl MapErr _ refl] show ?thesis
          by (auto simp add: hugepages_while.simps [of f a w] Let_def called_def
              hugepages_enomem_def split: if_splits)
      qed
    qed
  qed
qed

lemma map_physical_quiet:
  assumes "quiet w"
  shows "all_ends quiet snd (map_physical opened base a w)"
proof -
  from assms have q1: "quiet (called EvOpen w)"
    by (simp add: quiet_called word_count_def)
  then have q2: "quiet (called (EvMmapPhys n base) (called EvOpen w\<lparr>mmaps := rs\<rparr>))" for n rs
    by (simp add: quiet_called word_count_def)
  then have q3: "quiet (called (EvMlock p n')
      (called (EvMmapPhys n base) (called EvOpen w\<lparr>mmaps := rs\<rparr>)\<lparr>mlocks := ms\<rparr>))"
    for p n' n rs ms
    by (simp add: quiet_called word_count_def)
  from q1 q2 q3 show ?thesis
    by (auto simp: map_physical_def Let_def all_ends_def split: list.splits)
qed

lemma map_physical_Exits:
  "map_physical opened base a w = Exits c w' \<Longrightarrow> c = EXIT_FAIL_NONSTARTER"
  by (auto simp: map_physical_def Let_def split: list.splits if_splits)

lemma setup_alloc_cases:
  "setup_alloc cfg w = Exits EXIT_FAIL_NONSTARTER w \<or> (\<exists>a. setup_alloc cfg w = Returns a)"
  by (auto simp: setup_alloc_def memtester_pagesize_def and_then_def)

lemma acquire_quiet:
  assumes "quiet w"
  shows "all_ends quiet snd (acquire cfg w)"
proof -
  from setup_alloc_cases [of cfg w] show ?thesis
  proof
    assume "setup_alloc cfg w = Exits EXIT_FAIL_NONSTARTER w"
    with assms show ?thesis by (simp add: acquire_def and_then_def all_ends_def)
  next
    assume "\<exists>a. setup_alloc cfg w = Returns a"
    then obtain a0 where a0: "setup_alloc cfg w = Returns a0" ..
    define a1 where "a1 = a0\<lparr>wantbytes := cfg_request cfg, buf := 0\<rparr>"
    define first where "first = (if cfg_use_phys cfg
        then map_physical (cfg_opened cfg) (cfg_physaddrbase cfg) a1 w else Returns (a1, w))"
    have first: "all_ends quiet snd first"
      using assms map_physical_quiet [OF assms] by (simp add: first_def all_ends_def)
    have second: "all_ends quiet snd
        (if use_hugepages a2 then alloc_using_hugepages (cfg_hp_file cfg) a2 w2
         else if cfg_use_phys cfg then Returns (a2, w2)
         else malloc_retry (cfg_request cfg) a2 w2)" if "quiet w2" for a2 w2
      using that hugepages_while_quiet [OF that] malloc_retry_quiet [OF that]
      by (simp add: alloc_using_hugepages_def all_ends_def)
    define rest where "rest = (\<lambda>(a2, w2).
           and_then
             (if use_hugepages a2 then alloc_using_hugepages (cfg_hp_file cfg) a2 w2
              else if cfg_use_phys cfg then Returns (a2, w2)
              else malloc_retry (cfg_request cfg) a2 w2)
             (\<lambda>(a3, w3). Returns (align_to_page a3, w3)))"
    have both: "all_ends quiet snd (and_then first rest)"
    proof (cases first)
      case (Returns x)
      obtain a2 w2 where x: "x = (a2, w2)" by (cases x)
      with first Returns have "quiet w2" by (simp add: all_ends_def)
      from second [OF this, of a2] Returns x show ?thesis
        by (auto simp: and_then_def all_ends_def rest_def split: outcome.splits)
    next
      case (Exits c w')
      with first show ?thesis by (simp add: and_then_def all_ends_def)
    next
      case (Pending w')
      with first show ?thesis by (simp add: and_then_def all_ends_def)
    qed
    have "acquire cfg w = Exits EXIT_FAIL_NONSTARTER w \<or> acquire cfg w = and_then first rest"
      using a0
      by (simp add: acquire_def and_then_def [of "Returns a0"] Let_def first_def a1_def
          rest_def)
    with both assms show ?thesis
      by (auto simp: all_ends_def)
  qed
qed

lemma acquire_Exits:
  assumes "acquire cfg w = Exits c w'"
  shows "c = EXIT_FAIL_NONSTARTER"
proof -
  from setup_alloc_cases [of cfg w] show ?thesis
  proof
    assume "setup_alloc cfg w = Exits EXIT_FAIL_NONSTARTER w"
    with assms show ?thesis by (simp add: acquire_def and_then_def)
  next
    assume "\<exists>a. setup_alloc cfg w = Returns a"
    then obtain a0 where a0: "setup_alloc cfg w = Returns a0" ..
    define first where "first = (if cfg_use_phys cfg
        then map_physical (cfg_opened cfg) (cfg_physaddrbase cfg)
               (a0\<lparr>wantbytes := cfg_request cfg, buf := 0\<rparr>) w
        else Returns (a0\<lparr>wantbytes := cfg_request cfg, buf := 0\<rparr>, w))"
    define rest where "rest = (\<lambda>(a2, w2).
           and_then
             (if use_hugepages a2 then alloc_using_hugepages (cfg_hp_file cfg) a2 w2
              else if cfg_use_phys cfg then Returns (a2, w2)
              else malloc_retry (cfg_request cfg) a2 w2)
             (\<lambda>(a3, w3). Returns (align_to_page a3, w3)))"
    have "c = EXIT_FAIL_NONSTARTER" if "and_then first rest = Exits c w'"
    proof (cases first)
      case (Returns x)
      obtain a2 w2 where x: "x = (a2, w2)" by (cases x)
      from that Returns x show ?thesis
        by (auto simp: and_then_def rest_def alloc_using_hugepages_def malloc_retry_no_exit
            EXIT_FAILURE_def EXIT_FAIL_NONSTARTER_def
            split: outcome.splits if_splits dest!: hugepages_while_Exits)
    next
      case (Exits c' w'')
      with that have "c' = c" by (simp add: and_then_def)
      with Exits show ?thesis
        by (auto simp: first_def split: if_splits dest: map_physical_Exits)
    next
      case (Pending w'')
      with that show ?thesis by (simp add: and_then_def)
    qed
    moreover
    have "acquire cfg w = Exits EXIT_FAIL_NONSTARTER w \<or> acquire cfg w = and_then first rest"
      using a0
      by (simp add: acquire_def and_then_def [of "Returns a0"] Let_def first_def rest_def)
    ultimately show ?thesis using assms by auto
  qed
qed

lemma faulty_run:
  "acquire faulty_cfg faulty_answers =
     Returns (faulty_region, \<lparr>mallocs = [], mmaps = [], mlocks = [],
       verdicts = [0, 1, 0, 1, 0, 0], trace = [EvMalloc 8192, EvMlock 0x11000 4112]\<rparr>)"
  by (simp add: acquire_def setup_alloc_def memtester_pagesize_def and_then_def odd_cfg_def
      faulty_cfg_def faulty_answers_def faulty_region_def heap_after_def heap_before_def
      alloc_init_def Let_def malloc_retry.simps
      alloc_using_malloc_def malloc_while.simps called_def align_to_page_def
      mask_eq_exp_minus_1)

lemma small_run:
  "acquire small_cfg faulty_answers = Exits 1 faulty_answers"
  by (simp add: acquire_def setup_alloc_def memtester_pagesize_def and_then_def odd_cfg_def
      small_cfg_def alloc_init_def Let_def mask_eq_exp_minus_1 EXIT_FAIL_NONSTARTER_def)

subsection \<open>Word counts of zero\<close>

lemma zero_counts_called:
  "zero_counts w \<Longrightarrow> word_count e = None \<or> word_count e = Some 0 \<Longrightarrow> zero_counts (called e w)"
  by (auto simp: zero_counts_def called_def test_counts_append)
    (auto simp: test_counts_def map_filter_def)

lemma zero_counts_update [simp]:
  "zero_counts (w\<lparr>verdicts := v\<rparr>) = zero_counts w"
  by (simp add: zero_counts_def)

lemma quiet_zero_counts: "quiet w \<Longrightarrow> zero_counts w"
  by (simp add: quiet_def zero_counts_def)

lemma run_tests_zero_counts:
  assumes "count b = 0"
  shows "zero_counts w \<Longrightarrow> all_ends zero_counts snd (run_tests ts i m a b e w)"
proof (induction ts arbitrary: i e w)
  case Nil
  then show ?case by (simp add: all_ends_def)
next
  case (Cons t ts)
  show ?case
  proof (cases t)
    case None
    with Cons.prems show ?thesis by (simp add: all_ends_def)
  next
    case (Some name)
    show ?thesis
    proof (cases "verdicts w")
      case Nil
      with Some Cons.prems Cons.IH [of w] show ?thesis by (simp add: all_ends_def)
    next
      case (Cons v vs)
      from Cons.prems assms
      have "zero_counts (called (EvMemset (buf a) (wantbytes a))
          (called (EvTest name (bufa b) (bufb b) (count b)) (w\<lparr>verdicts := vs\<rparr>)))"
        by (simp add: zero_counts_called word_count_def)
      with Some Cons Cons.prems Cons.IH show ?thesis by (simp add: Let_def)
    qed
  qed
qed

lemma one_pass_zero_counts:
  assumes "count b = 0" and "scast (bufsize a) div sizeof_ul = (0 :: size_t)"
    and "zero_counts w"
  shows "all_ends zero_counts snd (one_pass m a b e w)"
proof (cases "verdicts w")
  case Nil
  with assms show ?thesis by (simp add: one_pass_def all_ends_def)
next
  case (Cons v vs)
  from assms
  have "zero_counts (called (EvStuckAddress (aligned a) (scast (bufsize a) div sizeof_ul))
      (w\<lparr>verdicts := vs\<rparr>))"
    by (simp add: zero_counts_called word_count_def)
  from run_tests_zero_counts [OF assms(1) this] Cons show ?thesis
    by (simp add: one_pass_def Let_def)
qed

lemma test_loop_zero_counts:
  "count b = 0 \<Longrightarrow> scast (bufsize a) div sizeof_ul = (0 :: size_t) \<Longrightarrow> zero_counts w \<Longrightarrow>
     all_ends zero_counts snd (test_loop loops loop m a b e w)"
proof (induction loops loop m a b e w rule: test_loop.induct)
  case (1 loops loop testmask a b exit_code w)
  note pass = one_pass_zero_counts [OF "1.prems", of testmask exit_code]
  show ?case
  proof (cases "loops = 0 \<or> loop \<le> loops")
    case False
    with "1.prems" show ?thesis
      by (auto simp add: test_loop.simps [of loops loop] all_ends_def)
  next
    case True
    show ?thesis
    proof (cases "one_pass testmask a b exit_code w")
      case (Returns x)
      obtain e' w' where x: "x = (e', w')" by (cases x)
      from pass have "zero_counts w'" unfolding Returns x all_ends_def by simp
      from "1.IH" [OF True Returns x [symmetric] "1.prems"(1,2) this] True Returns x
      show ?thesis by (simp add: test_loop.simps [of loops loop])
    next
      case (Exits c w')
      with pass True show ?thesis
        by (simp add: test_loop.simps [of loops loop] all_ends_def)
    next
      case (Pending w')
      with pass True show ?thesis
        by (simp add: test_loop.simps [of loops loop] all_ends_def)
    qed
  qed
qed

lemma hugepages_acquire:
  assumes hp: "cfg_hugepages cfg" and nophys: "\<not> cfg_use_phys cfg"
    and maps: "\<forall>p. MapOk p \<in> set (mmaps w) \<longrightarrow> p mod (2 * 1024 * 1024) = 0"
    and ret: "acquire cfg w = Returns (a, w1)"
  shows "bufsize a = 0"
proof -
  from setup_alloc_cases [of cfg w] ret obtain a0 where a0: "setup_alloc cfg w = Returns a0"
    by (auto simp: acquire_def and_then_def)
  with hp have a0': "use_hugepages a0" "pagesize a0 = 2 * 1024 * 1024" "bufsize a0 = 0"
    by (auto simp: setup_alloc_def memtester_pagesize_def and_then_def alloc_init_def
        split: if_splits)
  define a1 where "a1 = round_to_pagesize (a0\<lparr>wantbytes := cfg_request cfg, buf := 0\<rparr>)"
  have a1: "pagesize a1 = 2 * 1024 * 1024" "bufsize a1 = 0" "buf a1 = 0"
    using a0' by (simp_all add: a1_def round_to_pagesize_def)
  from ret a0 a0' nophys obtain a3 where
    hw: "hugepages_while (get_free_hugepages (cfg_hp_file cfg)) a1 w = Returns (a3, w1)"
    and a: "a = align_to_page a3"
    by (auto simp: acquire_def and_then_def Let_def alloc_using_hugepages_def a1_def
        split: if_splits outcome.splits)
  from hugepages_while_Returns [OF hw] a1 maps
  have "bufsize a3 = 0" "buf a3 mod pagesize a3 = 0"
    by auto
  with a show ?thesis by (simp add: align_to_page_def)
qed

lemma huge_run:
  "acquire huge_cfg huge_answers =
     Returns (huge_region, \<lparr>mallocs = [], mmaps = [], mlocks = [], verdicts = [0, 0],
       trace = [EvMmapHuge 4194304]\<rparr>)"
  by (simp add: acquire_def setup_alloc_def memtester_pagesize_def and_then_def huge_cfg_def
      huge_answers_def huge_region_def alloc_init_def Let_def alloc_using_hugepages_def
      round_to_pagesize_def hugepages_while.simps called_def align_to_page_def
      mask_eq_exp_minus_1)

lemma selected_1: "selected 1 = [''Random Value'']"
  by (simp add: selected_def test_names_list picked_Cons) (simp add: picked_def)

lemma huge_main: "main huge_cfg huge_answers = Exits 0 huge_end"
proof -
  have loops: "cfg_loops huge_cfg \<noteq> 0" "cfg_loops huge_cfg \<noteq> - 1"
    by (simp_all add: huge_cfg_def)
  have enough: "unat (cfg_loops huge_cfg) * Suc (length (selected (cfg_testmask huge_cfg)))
      \<le> length (verdicts \<lparr>mallocs = [], mmaps = [], mlocks = [], verdicts = [0, 0 :: cint],
            trace = [EvMmapHuge 4194304]\<rparr>)"
    by (simp add: huge_cfg_def selected_1)
  from passes_exact [OF loops enough, of huge_region] huge_run show ?thesis
    by (simp add: main_def and_then_def huge_cfg_def selected_1 address_flag_def
        other_flag_def pass_events_def test_events_def huge_region_def huge_end_def
        split_region_def Let_def signed_divide_int_def sizeof_ul_def)
qed

subsection \<open>Rounding and the size of the skip\<close>

lemma round_to_pagesize_unat:
  assumes page: "pagesize a \<noteq> 0" and fits: "unat (wantbytes a) + unat (pagesize a) < 2 ^ 64"
  shows "unat (pagesize a) dvd unat (wantbytes (round_to_pagesize a))
     \<and> unat (wantbytes a) \<le> unat (wantbytes (round_to_pagesize a))
     \<and> unat (wantbytes (round_to_pagesize a)) < unat (wantbytes a) + unat (pagesize a)"
proof -
  define n p where "n = unat (wantbytes a)" and "p = unat (pagesize a)"
  from page have p: "0 < p" by (simp add: p_def unat_gt_0)
  from fits have fits': "n + p < 2 ^ 64" by (simp add: n_def p_def)
  have rem: "unat (wantbytes a mod pagesize a) = n mod p"
    by (simp add: n_def p_def unat_mod_distrib)
  show ?thesis
  proof (cases "wantbytes a mod pagesize a = 0")
    case True
    with rem have "n mod p = 0" by simp
    then have "p dvd n" by (simp add: dvd_eq_mod_eq_0)
    with True p show ?thesis
      by (simp add: round_to_pagesize_def n_def [symmetric] p_def [symmetric])
  next
    case False
    then have "unat (wantbytes a mod pagesize a) \<noteq> 0"
      by (simp only: unsigned_eq_0_iff) simp
    with rem have nz: "n mod p \<noteq> 0" by simp
    define d where "d = n div p * p"
    have n: "n = d + n mod p" by (simp add: d_def)
    have less: "n mod p < p" using p by simp
    have up: "(n div p + 1) * p = d + p" by (simp add: d_def algebra_simps)
    from n fits' up have small: "(n div p + 1) * p < 2 ^ 64" by linarith
    have "(n div p + 1) * 1 \<le> (n div p + 1) * p"
      using p by (intro mult_le_mono2) simp
    then have "n div p + 1 \<le> (n div p + 1) * p" by simp
    with small have small1: "n div p + 1 < 2 ^ 64" by linarith
    have "unat (wantbytes a div pagesize a + 1) = n div p + 1"
      using small1 by (simp add: unat_word_ariths unat_div_distrib n_def p_def)
    then have r: "unat ((wantbytes a div pagesize a + 1) * pagesize a) = d + p"
      using small up by (simp add: unat_word_ariths(2) p_def [symmetric])
    have "p dvd d + p" by (simp add: d_def)
    moreover from n nz less have "n \<le> d + p" "d + p < n + p" by linarith+
    ultimately show ?thesis using False r
      by (simp add: round_to_pagesize_def n_def [symmetric] p_def [symmetric])
  qed
qed

lemma sint_request_less:
  fixes R S T :: "64 word"
  assumes "uint R < 2 ^ 31" and "uint S \<le> 2 ^ 30" and "uint T \<le> 2 ^ 30"
  shows "sint (ucast R - ucast S - ucast T :: 32 word) = uint R - uint S - uint T"
proof -
  define r s t where "r = uint R" and "s = uint S" and "t = uint T"
  have "0 \<le> r" "0 \<le> s" "0 \<le> t" by (simp_all add: r_def s_def t_def)
  moreover from assms have "r < 2147483648" "s \<le> 1073741824" "t \<le> 1073741824"
    by (simp_all add: r_def s_def t_def)
  ultimately have "- 2147483648 \<le> r - s - t" "r - s - t < 2147483648" by linarith+
  then have fit: "signed_take_bit 31 (r - s - t) = r - s - t"
    by (simp add: signed_take_bit_int_eq_self)
  have w: "(ucast R - ucast S - ucast T :: 32 word) = word_of_int (r - s - t)"
    unfolding r_def s_def t_def by (simp only: of_int_diff ucast_eq [symmetric])
  have "sint (ucast R - ucast S - ucast T :: 32 word) = signed_take_bit 31 (r - s - t)"
    by (simp only: w sint_sbintrunc') simp
  also note fit
  finally show ?thesis by (simp add: r_def s_def t_def)
qed

lemma skip_unat:
  fixes p :: "64 word"
  assumes "k < 64" and "p mod 2 ^ k \<noteq> 0"
  shows "unat ((p AND NOT (2 ^ k - 1)) + 2 ^ k - p) = 2 ^ k - unat p mod 2 ^ k"
    and "0 < unat p mod (2 ^ k :: nat)" and "unat p mod 2 ^ k < (2 ^ k :: nat)"
proof -
  have pk: "unat (2 ^ k :: 64 word) = 2 ^ k"
  proof -
    have "unat (push_bit k (1 :: 64 word)) = take_bit 64 (push_bit k (unat (1 :: 64 word)))"
      by (simp only: unsigned_push_bit_eq) simp
    also have "\<dots> = take_bit 64 ((2 :: nat) ^ k)" by (simp add: push_bit_eq_mult)
    also have "\<dots> = 2 ^ k" using assms(1) by (simp add: take_bit_nat_eq_self)
    finally show ?thesis by (simp add: push_bit_eq_mult)
  qed
  have m: "unat (p mod 2 ^ k) = unat p mod 2 ^ k"
    by (simp add: unat_mod_distrib pk)
  from assms(2) have "unat (p mod 2 ^ k) \<noteq> 0"
    by (simp only: unsigned_eq_0_iff) simp
  with m show pos: "0 < unat p mod (2 ^ k :: nat)" by simp
  show less: "unat p mod 2 ^ k < (2 ^ k :: nat)" by simp
  have eq: "(p AND NOT (2 ^ k - 1)) + 2 ^ k - p = 2 ^ k - p mod 2 ^ k"
    by (simp add: mask_align)
  have "p mod 2 ^ k \<le> 2 ^ k"
    using less m pk by (simp add: word_le_nat_alt)
  then have sub: "unat (2 ^ k - p mod 2 ^ k) = unat (2 ^ k :: 64 word) - unat (p mod 2 ^ k)"
    by (rule unat_sub)
  show "unat ((p AND NOT (2 ^ k - 1)) + 2 ^ k - p) = 2 ^ k - unat p mod 2 ^ k"
    by (simp only: eq sub m pk)
qed

lemma skip_uint:
  fixes p :: "64 word"
  assumes "k < 64" and "p mod 2 ^ k \<noteq> 0"
  shows "uint ((p AND NOT (2 ^ k - 1)) + 2 ^ k - p) = 2 ^ k - uint p mod 2 ^ k"
    and "0 < uint p mod 2 ^ k"
proof -
  note sk = skip_unat [OF assms]
  have md: "int (unat p mod 2 ^ k) = uint p mod 2 ^ k"
    by (simp only: zmod_int of_nat_power of_nat_numeral uint_nat)
  from sk(2) have "0 < int (unat p mod 2 ^ k)" by simp
  with md show "0 < uint p mod 2 ^ k" by simp
  have "uint ((p AND NOT (2 ^ k - 1)) + 2 ^ k - p)
      = int (unat ((p AND NOT (2 ^ k - 1)) + 2 ^ k - p))"
    by (rule uint_nat)
  also have "\<dots> = int (2 ^ k - unat p mod 2 ^ k)" by (simp only: sk(1))
  also have "\<dots> = int (2 ^ k) - int (unat p mod 2 ^ k)"
    using sk(3) by (intro of_nat_diff) simp
  also have "\<dots> = 2 ^ k - uint p mod 2 ^ k" by (simp only: md) simp
  finally show "uint ((p AND NOT (2 ^ k - 1)) + 2 ^ k - p) = 2 ^ k - uint p mod 2 ^ k" .
qed

lemma heap_first_attempt:
  assumes a: "buf a = 0" "wantbytes a \<noteq> 0" "do_mlock a"
    and w: "mallocs w = p # ps" "p \<noteq> 0" "mlocks w = m # ms"
    and m: "m = MlockOk \<or> m = MlockErr EOTHER"
  shows "\<exists>a' w'. malloc_retry orig a w = Returns (a', w')
      \<and> buf a' = p \<and> wantbytes a' = wantbytes a \<and> pagesize a' = pagesize a
      \<and> pagesizemask a' = pagesizemask a
      \<and> bufsize a' = bufsize (align_to_page (a\<lparr>buf := p, bufsize := ucast (wantbytes a)\<rparr>))"
proof -
  define w1 where "w1 = called (EvMalloc (wantbytes a)) (w\<lparr>mallocs := ps\<rparr>)"
  have "malloc_while (a\<lparr>buf := p\<rparr>) w1 = Returns (a\<lparr>buf := p\<rparr>, w1)"
    using w(2) by (simp add: malloc_while.simps [of "a\<lparr>buf := p\<rparr>" w1])
  with a w have mw: "malloc_while a w = Returns (a\<lparr>buf := p\<rparr>, w1)"
    by (simp add: malloc_while.simps [of a w] Let_def w1_def)
  have w1: "mlocks w1 = m # ms" using w by (simp add: w1_def called_def)
  define a3 where "a3 = align_to_page (a\<lparr>buf := p, bufsize := ucast (wantbytes a)\<rparr>)"
  have a3: "buf a3 = p" "wantbytes a3 = wantbytes a" "pagesize a3 = pagesize a"
    "pagesizemask a3 = pagesizemask a"
    by (simp_all add: a3_def align_to_page_def Let_def)
  from m mw w1 a(3) have "\<exists>a' w'. alloc_using_malloc a orig w = Returns (a', w', 1)
      \<and> (a' = a3 \<or> a' = a3\<lparr>do_mlock := False\<rparr>)"
    by (auto simp: alloc_using_malloc_def Let_def mlock_failed_def a3_def)
  then obtain a' w' where "alloc_using_malloc a orig w = Returns (a', w', 1)"
    and "a' = a3 \<or> a' = a3\<lparr>do_mlock := False\<rparr>" by blast
  with a3 show ?thesis
    by (auto simp: malloc_retry.simps [of orig a w] a3_def)
qed

subsection \<open>The region the heap path returns\<close>

lemmas acquire_heap_simps = acquire_def setup_alloc_def memtester_pagesize_def and_then_def
  odd_cfg_def alloc_init_def Let_def malloc_retry.simps alloc_using_malloc_def
  malloc_while.simps called_def align_to_page_def mask_eq_exp_minus_1 mlock_failed_def

lemma shrunk_run:
  "acquire shrunk_cfg shrunk_answers =
     Returns (shrunk_region, \<lparr>mallocs = [], mmaps = [], mlocks = [], verdicts = [],
       trace = [EvMalloc 12288, EvMlock 0x11000 8208, EvFree 0x10010, EvMalloc 8192,
         EvMlock 0x21000 4112]\<rparr>)"
  by (simp add: acquire_heap_simps shrunk_cfg_def shrunk_answers_def shrunk_region_def)

lemma gone_run:
  "acquire gone_cfg gone_answers =
     Returns (gone_region, \<lparr>mallocs = [], mmaps = [], mlocks = [], verdicts = [],
       trace = [EvMalloc 4096, EvMlock 0 0]\<rparr>)"
  by (simp add: acquire_heap_simps gone_cfg_def gone_answers_def gone_region_def)

lemma unpinned_run:
  "acquire odd_cfg unpinned_answers =
     Returns (unpinned_region, \<lparr>mallocs = [], mmaps = [], mlocks = [], verdicts = [],
       trace = [EvMalloc 4097, EvMlock 0x10000 4097, EvFree 0x10000, EvMalloc 4097,
         EvMalloc 1]\<rparr>)"
  by (simp add: acquire_heap_simps unpinned_answers_def unpinned_region_def)

lemma unknown_run:
  "acquire once_cfg unknown_answers =
     Returns (unknown_region, \<lparr>mallocs = [], mmaps = [], mlocks = [], verdicts = [0, 0, 0],
       trace = [EvMalloc 8192, EvMlock 0x11000 4112]\<rparr>)"
  by (simp add: acquire_heap_simps once_cfg_def faulty_cfg_def unknown_answers_def
      unknown_region_def faulty_region_def heap_after_def heap_before_def)

lemma restart_run:
  "acquire faulty_cfg restart_answers =
     Returns (restart_region, \<lparr>mallocs = [], mmaps = [], mlocks = [], verdicts = [],
       trace = [EvMalloc 8192, EvMlock 0x11000 4112, EvFree 0x10010, EvMalloc 8192]\<rparr>)"
  by (simp add: acquire_heap_simps faulty_cfg_def restart_answers_def restart_region_def)

lemma ends_with_mlock_snoc:
  "ends_with_mlock (tr @ [e]) = (case e of EvMlock p n \<Rightarrow> True | _ \<Rightarrow> False)"
  by (simp add: ends_with_mlock_def split: event.splits)

lemma ends_with_mlock_append:
  "es \<noteq> [] \<Longrightarrow> ends_with_mlock (tr @ es) = ends_with_mlock es"
  by (cases es rule: rev_cases) (simp_all add: ends_with_mlock_def)

text \<open>What holds of the request and of the trace between the calls of
  \<^verbatim>\<open>alloc_using_malloc\<close>, for a bound \<open>S\<close>: the request is at most \<open>S\<close>, or the next call is a
  \<^verbatim>\<open>malloc\<close> of the request, or a \<^verbatim>\<open>malloc\<close> of more than \<open>S\<close> bytes is on record; a block in
  hand was asked for with a size that is not 0; and pinning is on or the last call on
  record is not an \<^verbatim>\<open>mlock\<close>.\<close>

lemma malloc_while_shrinks:
  "malloc_while b v = Returns (b', v') \<Longrightarrow>
     (wantbytes b \<le> S \<or> buf b = 0 \<and> wantbytes b \<noteq> 0
        \<or> (\<exists>n. EvMalloc n \<in> set (trace v) \<and> S < n)) \<Longrightarrow>
     (buf b \<noteq> 0 \<longrightarrow> wantbytes b \<noteq> 0) \<Longrightarrow>
     (wantbytes b' \<le> S \<or> (\<exists>n. EvMalloc n \<in> set (trace v') \<and> S < n))
     \<and> (buf b' \<noteq> 0 \<longrightarrow> wantbytes b' \<noteq> 0)
     \<and> (trace v' = trace v \<or> \<not> ends_with_mlock (trace v'))"
proof (induction b v rule: malloc_while.induct)
  case (1 b v)
  show ?case
  proof (cases "buf b = 0 \<and> wantbytes b \<noteq> 0")
    case False
    with "1.prems" show ?thesis by (auto simp add: malloc_while.simps [of b v])
  next
    case True
    show ?thesis
    proof (cases "mallocs v")
      case Nil
      with True "1.prems" show ?thesis by (simp add: malloc_while.simps [of b v])
    next
      case (Cons p ps)
      define v1 where "v1 = called (EvMalloc (wantbytes b)) (v\<lparr>mallocs := ps\<rparr>)"
      define b2 where "b2 = (if p = 0 then b\<lparr>buf := p, wantbytes := wantbytes b - pagesize b\<rparr>
                             else b\<lparr>buf := p\<rparr>)"
      have tr: "trace v1 = trace v @ [EvMalloc (wantbytes b)]"
        by (simp add: v1_def called_def)
      from True Cons "1.prems"(1) have run: "malloc_while b2 v1 = Returns (b', v')"
        by (cases "p = 0") (simp_all add: malloc_while.simps [of b v] Let_def v1_def b2_def)
      have q: "wantbytes b2 \<le> S \<or> buf b2 = 0 \<and> wantbytes b2 \<noteq> 0
          \<or> (\<exists>n. EvMalloc n \<in> set (trace v1) \<and> S < n)"
      proof (cases "p = 0")
        case True
        then show ?thesis by (cases "wantbytes b2 = 0") (simp_all add: b2_def)
      next
        case False
        then show ?thesis using tr by (cases "wantbytes b \<le> S") (auto simp: b2_def)
      qed
      have k: "buf b2 \<noteq> 0 \<longrightarrow> wantbytes b2 \<noteq> 0"
        using True by (simp add: b2_def)
      have ih: "malloc_while b2 v1 = Returns (b', v') \<Longrightarrow>
         (wantbytes b2 \<le> S \<or> buf b2 = 0 \<and> wantbytes b2 \<noteq> 0
            \<or> (\<exists>n. EvMalloc n \<in> set (trace v1) \<and> S < n)) \<Longrightarrow>
         (buf b2 \<noteq> 0 \<longrightarrow> wantbytes b2 \<noteq> 0) \<Longrightarrow>
         (wantbytes b' \<le> S \<or> (\<exists>n. EvMalloc n \<in> set (trace v') \<and> S < n))
         \<and> (buf b' \<noteq> 0 \<longrightarrow> wantbytes b' \<noteq> 0)
         \<and> (trace v' = trace v1 \<or> \<not> ends_with_mlock (trace v'))"
        using "1.IH" [OF True Cons refl refl refl]
        by (cases "p = 0") (simp_all add: v1_def b2_def)
      from this [OF run q k] tr show ?thesis
        by (auto simp: ends_with_mlock_snoc)
    qed
  qed
qed

lemma malloc_retry_last:
  "malloc_retry orig b v = Returns (a', w') \<Longrightarrow> Inv b v \<Longrightarrow>
     (\<And>b v b' v'. Inv b v \<Longrightarrow> alloc_using_malloc b orig v = Returns (b', v', 0) \<Longrightarrow> Inv b' v')
     \<Longrightarrow> \<exists>c u r. alloc_using_malloc c orig u = Returns (a', w', r) \<and> r \<noteq> 0 \<and> Inv c u"
proof (induction orig b v rule: malloc_retry.induct)
  case (1 orig b v)
  show ?case
  proof (cases "alloc_using_malloc b orig v")
    case (Returns x)
    obtain b' v' r where x: "x = (b', v', r)" by (cases x)
    show ?thesis
    proof (cases "r = 0")
      case True
      with Returns x "1.prems"(1) have run: "malloc_retry orig b' v' = Returns (a', w')"
        by (simp add: malloc_retry.simps [of orig b v])
      from True Returns x "1.prems"(2,3) have inv: "Inv b' v'" by blast
      from "1.IH" [OF Returns, of b' "(v', r)" v' r, OF _ _ True run inv "1.prems"(3)] x
      show ?thesis by simp
    next
      case False
      with Returns x "1.prems"(1) have "a' = b'" "w' = v'"
        by (simp_all add: malloc_retry.simps [of orig b v])
      with Returns x False "1.prems"(2) show ?thesis by blast
    qed
  next
    case (Exits c w'')
    with "1.prems"(1) show ?thesis by (simp add: malloc_retry.simps [of orig b v])
  next
    case (Pending w'')
    with "1.prems"(1) show ?thesis by (simp add: malloc_retry.simps [of orig b v])
  qed
qed

lemma alloc_using_malloc_again:
  assumes ret: "alloc_using_malloc b S v = Returns (b', v', 0)"
    and inv: "pagesize b = P \<and> pagesizemask b = M
      \<and> (wantbytes b \<le> S \<or> buf b = 0 \<and> wantbytes b \<noteq> 0
           \<or> (\<exists>n. EvMalloc n \<in> set (trace v) \<and> S < n))
      \<and> (buf b \<noteq> 0 \<longrightarrow> wantbytes b \<noteq> 0)
      \<and> (do_mlock b \<or> \<not> ends_with_mlock (trace v))"
  shows "pagesize b' = P \<and> pagesizemask b' = M
      \<and> (wantbytes b' \<le> S \<or> buf b' = 0 \<and> wantbytes b' \<noteq> 0
           \<or> (\<exists>n. EvMalloc n \<in> set (trace v') \<and> S < n))
      \<and> (buf b' \<noteq> 0 \<longrightarrow> wantbytes b' \<noteq> 0)
      \<and> (do_mlock b' \<or> \<not> ends_with_mlock (trace v'))"
proof -
  from ret obtain b1 v1 where mw: "malloc_while b v = Returns (b1, v1)"
    by (auto simp: alloc_using_malloc_def split: outcome.splits)
  note keeps = malloc_while_keeps [OF mw]
  from inv have q: "wantbytes b \<le> S \<or> buf b = 0 \<and> wantbytes b \<noteq> 0
           \<or> (\<exists>n. EvMalloc n \<in> set (trace v) \<and> S < n)"
    and k: "buf b \<noteq> 0 \<longrightarrow> wantbytes b \<noteq> 0" by simp_all
  define b3 where "b3 = align_to_page (b1\<lparr>bufsize := ucast (wantbytes b1)\<rparr>)"
  have b3: "buf b3 = buf b1" "pagesize b3 = pagesize b1" "wantbytes b3 = wantbytes b1"
    "pagesizemask b3 = pagesizemask b1" "do_mlock b3 = do_mlock b1"
    by (simp_all add: b3_def align_to_page_def Let_def)
  from ret mw have "\<exists>rs e. do_mlock b1 \<and> mlock_failed e S b3
        (called (EvMlock (aligned b3) (scast (bufsize b3))) (v1\<lparr>mlocks := rs\<rparr>)) = (b', v', 0)"
    by (auto simp: alloc_using_malloc_def Let_def b3_def
        split: list.splits mlock_res.splits if_splits)
  then obtain rs e where pin: "do_mlock b1"
    and res: "mlock_failed e S b3
        (called (EvMlock (aligned b3) (scast (bufsize b3))) (v1\<lparr>mlocks := rs\<rparr>)) = (b', v', 0)"
    by blast
  then have e: "e \<noteq> EOTHER" by (auto simp: mlock_failed_def)
  have zero: "wantbytes b' = 0 \<or> wantbytes b' \<noteq> 0" by simp
  from res e b3 keeps inv pin show ?thesis
    by (cases e) (auto simp: mlock_failed_def called_def ends_with_mlock_append
        ends_with_mlock_def)
qed

lemma alloc_using_malloc_done:
  assumes ret: "alloc_using_malloc c S u = Returns (a', w', r)" and r: "r \<noteq> 0"
    and inv: "pagesize c = P \<and> pagesizemask c = M
      \<and> (wantbytes c \<le> S \<or> buf c = 0 \<and> wantbytes c \<noteq> 0
           \<or> (\<exists>n. EvMalloc n \<in> set (trace u) \<and> S < n))
      \<and> (buf c \<noteq> 0 \<longrightarrow> wantbytes c \<noteq> 0)
      \<and> (do_mlock c \<or> \<not> ends_with_mlock (trace u))"
  shows "pagesize a' = P" "pagesizemask a' = M"
    and "wantbytes a' \<le> S \<or> (\<exists>n. EvMalloc n \<in> set (trace w') \<and> S < n)"
    and "buf a' \<noteq> 0 \<longrightarrow> wantbytes a' \<noteq> 0"
    and "do_mlock a' \<or> ends_with_mlock (trace w') \<Longrightarrow> do_mlock c"
    and "do_mlock c \<Longrightarrow>
           (\<exists>tr. trace w' = tr @ [EvMlock (aligned a') (scast (bufsize a'))])
           \<and> a' = (align_to_page (a'\<lparr>bufsize := ucast (wantbytes a')\<rparr>))\<lparr>do_mlock := do_mlock a'\<rparr>"
    and "\<not> do_mlock c \<Longrightarrow> bufsize a' = ucast (wantbytes a')"
proof -
  from ret obtain b1 v1 where mw: "malloc_while c u = Returns (b1, v1)"
    by (auto simp: alloc_using_malloc_def split: outcome.splits)
  note keeps = malloc_while_keeps [OF mw]
  from inv have q: "wantbytes c \<le> S \<or> buf c = 0 \<and> wantbytes c \<noteq> 0
           \<or> (\<exists>n. EvMalloc n \<in> set (trace u) \<and> S < n)"
    and k: "buf c \<noteq> 0 \<longrightarrow> wantbytes c \<noteq> 0" by simp_all
  note sh = malloc_while_shrinks [OF mw q k]
  define b2 where "b2 = b1\<lparr>bufsize := ucast (wantbytes b1)\<rparr>"
  define b3 where "b3 = align_to_page b2"
  have b3: "buf b3 = buf b1" "pagesize b3 = pagesize b1" "wantbytes b3 = wantbytes b1"
    "pagesizemask b3 = pagesizemask b1" "do_mlock b3 = do_mlock b1"
    by (simp_all add: b3_def b2_def align_to_page_def Let_def)
  have idem: "align_to_page (b3\<lparr>bufsize := ucast (wantbytes b3)\<rparr>) = b3"
    by (simp add: b3_def b2_def align_to_page_def Let_def)
  have idem': "align_to_page (b3\<lparr>do_mlock := False, bufsize := ucast (wantbytes b3)\<rparr>)
      = b3\<lparr>do_mlock := False\<rparr>"
    by (simp add: b3_def b2_def align_to_page_def Let_def)
  show "pagesize a' = P" "pagesizemask a' = M"
    using ret r mw keeps inv
    by (auto simp: alloc_using_malloc_def Let_def mlock_failed_def align_to_page_def
        split: list.splits mlock_res.splits errno.splits if_splits)
  consider (plain) "\<not> do_mlock c" "a' = b2" "w' = v1"
    | (pinned) rs where "do_mlock c" "a' = b3 \<or> a' = b3\<lparr>do_mlock := False\<rparr>"
        "w' = called (EvMlock (aligned b3) (scast (bufsize b3))) (v1\<lparr>mlocks := rs\<rparr>)"
    using ret r mw keeps
    by (auto simp: alloc_using_malloc_def Let_def mlock_failed_def b3_def b2_def
        split: list.splits mlock_res.splits errno.splits if_splits)
  note cases = this
  show "wantbytes a' \<le> S \<or> (\<exists>n. EvMalloc n \<in> set (trace w') \<and> S < n)"
    using sh b3 by (cases rule: cases) (auto simp: b2_def called_def)
  show "buf a' \<noteq> 0 \<longrightarrow> wantbytes a' \<noteq> 0"
    using sh b3 by (cases rule: cases) (auto simp: b2_def called_def)
  show "do_mlock c" if "do_mlock a' \<or> ends_with_mlock (trace w')"
  proof (cases rule: cases)
    case plain
    with that keeps sh inv show ?thesis by (auto simp: b2_def)
  next
    case pinned
    then show ?thesis by simp
  qed
  show "(\<exists>tr. trace w' = tr @ [EvMlock (aligned a') (scast (bufsize a'))])
       \<and> a' = (align_to_page (a'\<lparr>bufsize := ucast (wantbytes a')\<rparr>))\<lparr>do_mlock := do_mlock a'\<rparr>"
    if "do_mlock c"
  proof (cases rule: cases)
    case plain
    with that show ?thesis by simp
  next
    case (pinned rs)
    from pinned(2) show ?thesis
    proof
      assume "a' = b3"
      with pinned(3) idem show ?thesis by (simp add: called_def)
    next
      assume "a' = b3\<lparr>do_mlock := False\<rparr>"
      with pinned(3) idem' show ?thesis by (simp add: called_def)
    qed
  qed
  show "bufsize a' = ucast (wantbytes a')" if "\<not> do_mlock c"
    using that by (cases rule: cases) (simp_all add: b2_def)
qed

lemma heap_last_call:
  assumes heap: "\<not> cfg_hugepages cfg" "\<not> cfg_use_phys cfg"
    and ret: "acquire cfg w = Returns (a, w1)"
  shows "\<exists>a' c u r. a = align_to_page a'
      \<and> alloc_using_malloc c (cfg_request cfg) u = Returns (a', w1, r) \<and> r \<noteq> 0
      \<and> (pagesize c = cfg_sc_page_size cfg \<and> pagesizemask c = NOT (cfg_sc_page_size cfg - 1)
          \<and> (wantbytes c \<le> cfg_request cfg \<or> buf c = 0 \<and> wantbytes c \<noteq> 0
               \<or> (\<exists>n. EvMalloc n \<in> set (trace u) \<and> cfg_request cfg < n))
          \<and> (buf c \<noteq> 0 \<longrightarrow> wantbytes c \<noteq> 0)
          \<and> (do_mlock c \<or> \<not> ends_with_mlock (trace u)))"
proof -
  define Inv where "Inv = (\<lambda>(c :: memory_alloc) (u :: world). pagesize c = cfg_sc_page_size cfg
          \<and> pagesizemask c = NOT (cfg_sc_page_size cfg - 1)
          \<and> (wantbytes c \<le> cfg_request cfg \<or> buf c = 0 \<and> wantbytes c \<noteq> 0
               \<or> (\<exists>n. EvMalloc n \<in> set (trace u) \<and> cfg_request cfg < n))
          \<and> (buf c \<noteq> 0 \<longrightarrow> wantbytes c \<noteq> 0)
          \<and> (do_mlock c \<or> \<not> ends_with_mlock (trace u)))"
  have sc: "cfg_sc_page_size cfg \<noteq> - 1"
  proof
    assume "cfg_sc_page_size cfg = - 1"
    with heap ret show False
      by (simp add: acquire_def setup_alloc_def memtester_pagesize_def and_then_def
          alloc_init_def)
  qed
  define a1 where "a1 = alloc_init\<lparr>use_hugepages := False, pagesize := cfg_sc_page_size cfg,
        pagesizemask := NOT (cfg_sc_page_size cfg - 1), wantbytes := cfg_request cfg, buf := 0\<rparr>"
  from heap ret obtain a' where retry: "malloc_retry (cfg_request cfg) a1 w = Returns (a', w1)"
    and a: "a = align_to_page a'"
    by (auto simp: acquire_def setup_alloc_Returns [OF sc] and_then_def Let_def a1_def
        split: if_splits outcome.splits)
  have start: "Inv a1 w"
    by (simp add: Inv_def a1_def alloc_init_def)
  have step: "Inv b' v'"
    if "Inv b v" "alloc_using_malloc b (cfg_request cfg) v = Returns (b', v', 0)" for b v b' v'
    using alloc_using_malloc_again [OF that(2)] that(1) unfolding Inv_def by blast
  have "\<exists>c u r. alloc_using_malloc c (cfg_request cfg) u = Returns (a', w1, r)
      \<and> r \<noteq> 0 \<and> Inv c u"
    by (rule malloc_retry_last [of "cfg_request cfg" a1 w a' w1 Inv, OF retry start])
      (rule step)
  then obtain c u r where "alloc_using_malloc c (cfg_request cfg) u = Returns (a', w1, r)"
    "r \<noteq> 0" "Inv c u" by blast
  with a show ?thesis unfolding Inv_def by blast
qed

text \<open>The region after the alignment block of \<^verbatim>\<open>main\<close>, in terms of the block and the size
  granted.\<close>

lemma heap_region:
  assumes heap: "\<not> cfg_hugepages cfg" "\<not> cfg_use_phys cfg"
    and ret: "acquire cfg w = Returns (a, w1)"
  shows "pagesize a = cfg_sc_page_size cfg"
    and "pagesizemask a = NOT (cfg_sc_page_size cfg - 1)"
    and "wantbytes a \<le> cfg_request cfg
           \<or> (\<exists>n. EvMalloc n \<in> set (trace w1) \<and> cfg_request cfg < n)"
    and "buf a \<noteq> 0 \<longrightarrow> wantbytes a \<noteq> 0"
    and "buf a mod pagesize a = 0 \<Longrightarrow> aligned a = buf a \<and> bufsize a = ucast (wantbytes a)"
    and "buf a mod pagesize a \<noteq> 0 \<Longrightarrow>
           aligned a = (buf a AND pagesizemask a) + pagesize a
           \<and> (bufsize a = ucast (wantbytes a) - ucast (aligned a - buf a)
              \<or> bufsize a = ucast (wantbytes a) - ucast (aligned a - buf a)
                   - ucast (aligned a - buf a))"
    and "buf a mod pagesize a \<noteq> 0 \<Longrightarrow> do_mlock a \<or> ends_with_mlock (trace w1) \<Longrightarrow>
           (\<exists>tr. trace w1 = tr @ [EvMlock (aligned a)
                    (scast (ucast (wantbytes a) - ucast (aligned a - buf a) :: cint))])
           \<and> bufsize a = ucast (wantbytes a) - ucast (aligned a - buf a)
                - ucast (aligned a - buf a)"
    and "buf a mod pagesize a \<noteq> 0 \<Longrightarrow> \<not> ends_with_mlock (trace w1) \<Longrightarrow>
           bufsize a = ucast (wantbytes a) - ucast (aligned a - buf a)"
proof -
  from heap_last_call [OF assms] obtain a' c u r where a: "a = align_to_page a'"
    and call: "alloc_using_malloc c (cfg_request cfg) u = Returns (a', w1, r)" and r: "r \<noteq> 0"
    and inv: "pagesize c = cfg_sc_page_size cfg \<and> pagesizemask c = NOT (cfg_sc_page_size cfg - 1)
          \<and> (wantbytes c \<le> cfg_request cfg \<or> buf c = 0 \<and> wantbytes c \<noteq> 0
               \<or> (\<exists>n. EvMalloc n \<in> set (trace u) \<and> cfg_request cfg < n))
          \<and> (buf c \<noteq> 0 \<longrightarrow> wantbytes c \<noteq> 0)
          \<and> (do_mlock c \<or> \<not> ends_with_mlock (trace u))"
    by blast
  note fin = alloc_using_malloc_done [OF call r inv]
  have same: "buf a = buf a'" "pagesize a = pagesize a'" "pagesizemask a = pagesizemask a'"
    "wantbytes a = wantbytes a'" "do_mlock a = do_mlock a'"
    by (simp_all add: a align_to_page_def Let_def)
  from fin(1,2) same show "pagesize a = cfg_sc_page_size cfg"
    "pagesizemask a = NOT (cfg_sc_page_size cfg - 1)" by simp_all
  from fin(3) same show "wantbytes a \<le> cfg_request cfg
           \<or> (\<exists>n. EvMalloc n \<in> set (trace w1) \<and> cfg_request cfg < n)" by simp
  from fin(4) same show "buf a \<noteq> 0 \<longrightarrow> wantbytes a \<noteq> 0" by simp
  have once: "bufsize a' = ucast (wantbytes a')" if "buf a' mod pagesize a' = 0"
  proof (cases "do_mlock c")
    case True
    from fin(6) [OF True] have "bufsize a'
        = bufsize ((align_to_page (a'\<lparr>bufsize := ucast (wantbytes a')\<rparr>))\<lparr>do_mlock := do_mlock a'\<rparr>)"
      by simp
    with that show ?thesis by (simp add: align_to_page_def)
  next
    case False
    from fin(7) [OF False] show ?thesis .
  qed
  show "aligned a = buf a \<and> bufsize a = ucast (wantbytes a)" if "buf a mod pagesize a = 0"
    using that once same by (simp add: a align_to_page_def)
  have al: "aligned a = (buf a AND pagesizemask a) + pagesize a" if "buf a mod pagesize a \<noteq> 0"
    using that same by (simp add: a align_to_page_def Let_def)
  have last: "bufsize a = bufsize a' - ucast (aligned a - buf a)"
    if "buf a mod pagesize a \<noteq> 0"
    using that same by (simp add: a align_to_page_def Let_def int_sub_skip)
  have pinned: "aligned a' = aligned a
      \<and> bufsize a' = ucast (wantbytes a) - ucast (aligned a - buf a)
      \<and> (\<exists>tr. trace w1 = tr @ [EvMlock (aligned a') (scast (bufsize a'))])"
    if un: "buf a mod pagesize a \<noteq> 0" and c: "do_mlock c"
  proof -
    define a2 where "a2 = align_to_page (a'\<lparr>bufsize := ucast (wantbytes a')\<rparr>)"
    from fin(6) [OF c] have tr: "\<exists>tr. trace w1 = tr @ [EvMlock (aligned a') (scast (bufsize a'))]"
      and eq: "a' = a2\<lparr>do_mlock := do_mlock a'\<rparr>" by (simp_all add: a2_def)
    from eq have "aligned a' = aligned a2" "bufsize a' = bufsize a2"
      by (metis memory_alloc.select_convs memory_alloc.surjective memory_alloc.update_convs)+
    moreover from un same have "aligned a2 = (buf a AND pagesizemask a) + pagesize a"
      "bufsize a2 = ucast (wantbytes a) - ucast ((buf a AND pagesizemask a) + pagesize a - buf a)"
      by (simp_all add: a2_def align_to_page_def Let_def int_sub_skip)
    ultimately show ?thesis using al [OF un] tr by simp
  qed
  show "aligned a = (buf a AND pagesizemask a) + pagesize a
           \<and> (bufsize a = ucast (wantbytes a) - ucast (aligned a - buf a)
              \<or> bufsize a = ucast (wantbytes a) - ucast (aligned a - buf a)
                   - ucast (aligned a - buf a))"
    if un: "buf a mod pagesize a \<noteq> 0"
  proof (cases "do_mlock c")
    case True
    from pinned [OF un True] last [OF un] al [OF un] show ?thesis by simp
  next
    case False
    from fin(7) [OF False] last [OF un] al [OF un] same show ?thesis by simp
  qed
  show "(\<exists>tr. trace w1 = tr @ [EvMlock (aligned a)
                    (scast (ucast (wantbytes a) - ucast (aligned a - buf a) :: cint))])
           \<and> bufsize a = ucast (wantbytes a) - ucast (aligned a - buf a)
                - ucast (aligned a - buf a)"
    if un: "buf a mod pagesize a \<noteq> 0" and pin: "do_mlock a \<or> ends_with_mlock (trace w1)"
  proof -
    from pin same have "do_mlock a' \<or> ends_with_mlock (trace w1)" by simp
    then have c: "do_mlock c" by (rule fin(5))
    from pinned [OF un c] obtain tr where "aligned a' = aligned a"
      "bufsize a' = ucast (wantbytes a) - ucast (aligned a - buf a)"
      "trace w1 = tr @ [EvMlock (aligned a') (scast (bufsize a'))]" by blast
    with last [OF un] show ?thesis by simp
  qed
  show "bufsize a = ucast (wantbytes a) - ucast (aligned a - buf a)"
    if un: "buf a mod pagesize a \<noteq> 0" and off: "\<not> ends_with_mlock (trace w1)"
  proof -
    have "\<not> do_mlock c"
    proof
      assume "do_mlock c"
      from fin(6) [OF this] obtain tr where
        "trace w1 = tr @ [EvMlock (aligned a') (scast (bufsize a'))]" by blast
      with off show False by (simp add: ends_with_mlock_snoc)
    qed
    from fin(7) [OF this] last [OF un] same show ?thesis by simp
  qed
qed

lemma heap_usable:
  assumes heap: "\<not> cfg_hugepages cfg" "\<not> cfg_use_phys cfg"
    and ret: "acquire cfg w = Returns (a, w1)"
    and page: "cfg_sc_page_size cfg = 2 ^ k" and k: "k < 31"
    and small: "uint (wantbytes a) < 2 ^ 31"
  shows "sint (bufsize a) \<le> uint (wantbytes a)"
    and "buf a mod 2 ^ k = 0 \<longrightarrow> sint (bufsize a) = uint (wantbytes a)"
    and "2 * 2 ^ k \<le> uint (wantbytes a) \<longrightarrow> 0 < sint (bufsize a)"
    and "buf a mod 2 ^ k \<noteq> 0 \<longrightarrow> \<not> ends_with_mlock (trace w1) \<longrightarrow>
           sint (bufsize a) = uint (wantbytes a) - (2 ^ k - uint (buf a) mod 2 ^ k)
           \<and> (2 ^ k \<le> uint (wantbytes a) \<longrightarrow> 0 < sint (bufsize a))"
proof -
  note region = heap_region [OF heap ret]
  from region(1,2) page have ps: "pagesize a = 2 ^ k" "pagesizemask a = NOT (2 ^ k - 1)"
    by simp_all
  from k have k64: "k < 64" by simp
  have pk: "(2 :: int) ^ k \<le> 2 ^ 30"
    using k by (intro power_increasing) simp_all
  have zero: "uint (0 :: 64 word) \<le> 2 ^ 30" by simp
  have plain: "sint (ucast (wantbytes a) :: cint) = uint (wantbytes a)"
    using sint_request_less [OF small zero zero] by simp
  have all: "sint (bufsize a) \<le> uint (wantbytes a)
      \<and> (buf a mod 2 ^ k = 0 \<longrightarrow> sint (bufsize a) = uint (wantbytes a))
      \<and> (2 * 2 ^ k \<le> uint (wantbytes a) \<longrightarrow> 0 < sint (bufsize a))
      \<and> (buf a mod 2 ^ k \<noteq> 0 \<longrightarrow> \<not> ends_with_mlock (trace w1) \<longrightarrow>
           sint (bufsize a) = uint (wantbytes a) - (2 ^ k - uint (buf a) mod 2 ^ k)
           \<and> (2 ^ k \<le> uint (wantbytes a) \<longrightarrow> 0 < sint (bufsize a)))"
  proof (cases "buf a mod 2 ^ k = 0")
    case True
    with region(5) ps have "bufsize a = ucast (wantbytes a)" by simp
    moreover have "0 < (2 :: int) * 2 ^ k" by simp
    then have "2 * 2 ^ k \<le> uint (wantbytes a) \<longrightarrow> 0 < uint (wantbytes a)" by linarith
    ultimately show ?thesis using plain True by simp
  next
    case False
    define sk where "sk = aligned a - buf a"
    from False ps have un: "buf a mod pagesize a \<noteq> 0" by simp
    note r6 = region(6) [OF un]
    from r6 ps have al: "aligned a = (buf a AND NOT (2 ^ k - 1)) + 2 ^ k" by simp
    from r6 have size: "bufsize a = ucast (wantbytes a) - ucast sk
          \<or> bufsize a = ucast (wantbytes a) - ucast sk - ucast sk"
      unfolding sk_def by blast
    from skip_uint [OF k64 False] al have sk: "uint sk = 2 ^ k - uint (buf a) mod 2 ^ k"
      "0 < uint (buf a) mod 2 ^ k" by (simp_all add: sk_def)
    then have sk0: "0 < uint sk" "uint sk < 2 ^ k" by simp_all
    with pk have sk30: "uint sk \<le> 2 ^ 30" by linarith
    from size have either: "sint (bufsize a) = uint (wantbytes a) - uint sk
        \<or> sint (bufsize a) = uint (wantbytes a) - uint sk - uint sk"
    proof
      assume "bufsize a = ucast (wantbytes a) - ucast sk"
      with sint_request_less [OF small sk30 zero] show ?thesis by simp
    next
      assume "bufsize a = ucast (wantbytes a) - ucast sk - ucast sk"
      with sint_request_less [OF small sk30 sk30] show ?thesis by simp
    qed
    have c1: "sint (bufsize a) \<le> uint (wantbytes a)"
      using either sk0 by (elim disjE) linarith+
    have c3: "2 * 2 ^ k \<le> uint (wantbytes a) \<longrightarrow> 0 < sint (bufsize a)"
      using either sk0 by (elim disjE) linarith+
    have c4: "sint (bufsize a) = uint (wantbytes a) - (2 ^ k - uint (buf a) mod 2 ^ k)
        \<and> (2 ^ k \<le> uint (wantbytes a) \<longrightarrow> 0 < sint (bufsize a))"
      if off: "\<not> ends_with_mlock (trace w1)"
    proof -
      from region(8) [OF un off] have "bufsize a = ucast (wantbytes a) - ucast sk"
        by (simp add: sk_def)
      with sint_request_less [OF small sk30 zero]
      have single: "sint (bufsize a) = uint (wantbytes a) - uint sk" by simp
      then have "sint (bufsize a) = uint (wantbytes a) - (2 ^ k - uint (buf a) mod 2 ^ k)"
        by (simp only: sk(1))
      moreover from single sk0
      have "2 ^ k \<le> uint (wantbytes a) \<longrightarrow> 0 < sint (bufsize a)" by linarith
      ultimately show ?thesis by blast
    qed
    from False c1 c3 c4 show ?thesis by blast
  qed
  show "sint (bufsize a) \<le> uint (wantbytes a)"
    by (rule all [THEN conjunct1])
  show "buf a mod 2 ^ k = 0 \<longrightarrow> sint (bufsize a) = uint (wantbytes a)"
    by (rule all [THEN conjunct2, THEN conjunct1])
  show "2 * 2 ^ k \<le> uint (wantbytes a) \<longrightarrow> 0 < sint (bufsize a)"
    by (rule all [THEN conjunct2, THEN conjunct2, THEN conjunct1])
  show "buf a mod 2 ^ k \<noteq> 0 \<longrightarrow> \<not> ends_with_mlock (trace w1) \<longrightarrow>
           sint (bufsize a) = uint (wantbytes a) - (2 ^ k - uint (buf a) mod 2 ^ k)
           \<and> (2 ^ k \<le> uint (wantbytes a) \<longrightarrow> 0 < sint (bufsize a))"
    by (rule all [THEN conjunct2, THEN conjunct2, THEN conjunct2])
qed

subsection \<open>A request that falls below one huge page\<close>

text \<open>When the request falls below one page in \<^verbatim>\<open>alloc_using_hugepages\<close>, the message is
  printed and the \<^verbatim>\<open>break\<close> leaves the loop; \<^verbatim>\<open>main\<close> then runs the tests on a null buffer
  with a word count of 0 and exits with the status 0.\<close>

lemma exhausted_huge_pages_go_on:
  "main exhausted_cfg exhausted_answers =
     Exits 0 \<lparr>mallocs = [], mmaps = [], mlocks = [], verdicts = [],
       trace = [EvMmapHuge 2097152, EvStuckAddress 0 0, EvTest ''Random Value'' 0 0 0,
         EvMemset 0 0, EvMunlock 0 0]\<rparr>"
proof -
  define region where "region = huge_region\<lparr>buf := 0, aligned := 0, wantbytes := 0\<rparr>"
  have acq: "acquire exhausted_cfg exhausted_answers =
     Returns (region, \<lparr>mallocs = [], mmaps = [], mlocks = [], verdicts = [0, 0],
       trace = [EvMmapHuge 2097152]\<rparr>)"
    by (simp add: acquire_def setup_alloc_def memtester_pagesize_def and_then_def huge_cfg_def
      exhausted_cfg_def exhausted_answers_def huge_region_def region_def alloc_init_def Let_def
      alloc_using_hugepages_def round_to_pagesize_def hugepages_while.simps called_def
      align_to_page_def mask_eq_exp_minus_1 get_free_hugepages_def hugepages_enomem_def
      MAP_FAILED_def)
  have loops: "cfg_loops exhausted_cfg \<noteq> 0" "cfg_loops exhausted_cfg \<noteq> - 1"
    by (simp_all add: exhausted_cfg_def huge_cfg_def)
  have enough: "unat (cfg_loops exhausted_cfg)
        * Suc (length (selected (cfg_testmask exhausted_cfg)))
      \<le> length (verdicts \<lparr>mallocs = [], mmaps = [], mlocks = [], verdicts = [0, 0 :: cint],
            trace = [EvMmapHuge 2097152]\<rparr>)"
    by (simp add: exhausted_cfg_def huge_cfg_def selected_1)
  from passes_exact [OF loops enough, of region] acq show ?thesis
    by (simp add: main_def and_then_def exhausted_cfg_def huge_cfg_def selected_1
        address_flag_def other_flag_def pass_events_def test_events_def huge_region_def
        region_def split_region_def Let_def signed_divide_int_def sizeof_ul_def)
qed

section \<open>Properties\<close>

text \<open>
  C1. The usable size of an acquired region need be neither even nor positive. A request
  of 4097 bytes on 4096-byte pages, served by \<^verbatim>\<open>malloc\<close> at a page boundary, gives 4097
  usable bytes. A request of two huge pages in huge-page mode, mapped at once, gives a
  usable size of 0. A request of one page that \<^verbatim>\<open>malloc\<close> refuses shrinks to 0 bytes, and
  acquisition returns a null block with a usable size of 0. A request of 4097 bytes that is
  restarted unpinned after a permission failure, shrinks to 1 byte and is then served off a
  page boundary gives a usable size of -4079.
\<close>

theorem usable_bytes_odd_or_zero:
  "acquire odd_cfg odd_answers =
     Returns (odd_region, \<lparr>mallocs = [], mmaps = [], mlocks = [], verdicts = [],
       trace = [EvMalloc 4097, EvMlock 0x10000 4097]\<rparr>)
   \<and> cfg_sc_page_size odd_cfg = 4096 \<and> cfg_request odd_cfg = 4097
   \<and> sint (bufsize odd_region) = 4097 \<and> \<not> even (sint (bufsize odd_region))
   \<and> acquire huge_cfg huge_answers =
     Returns (huge_region, \<lparr>mallocs = [], mmaps = [], mlocks = [], verdicts = [0, 0],
       trace = [EvMmapHuge 4194304]\<rparr>)
   \<and> cfg_request huge_cfg = 4194304 \<and> pagesize huge_region = 2097152
   \<and> \<not> 0 < sint (bufsize huge_region)
   \<and> acquire gone_cfg gone_answers =
     Returns (gone_region, \<lparr>mallocs = [], mmaps = [], mlocks = [], verdicts = [],
       trace = [EvMalloc 4096, EvMlock 0 0]\<rparr>)
   \<and> cfg_sc_page_size gone_cfg = 4096 \<and> cfg_request gone_cfg = 4096
   \<and> buf gone_region = 0 \<and> \<not> 0 < sint (bufsize gone_region)
   \<and> acquire odd_cfg unpinned_answers =
     Returns (unpinned_region, \<lparr>mallocs = [], mmaps = [], mlocks = [], verdicts = [],
       trace = [EvMalloc 4097, EvMlock 0x10000 4097, EvFree 0x10000, EvMalloc 4097,
         EvMalloc 1]\<rparr>)
   \<and> buf unpinned_region = 0x10010 \<and> wantbytes unpinned_region = 1
   \<and> sint (bufsize unpinned_region) = - 4079"
  using odd_run huge_run gone_run unpinned_run
  by (simp add: odd_cfg_def odd_region_def huge_cfg_def huge_region_def gone_cfg_def
      gone_region_def unpinned_region_def)

text \<open>
  C1, as the code has it, for the heap path. A request below one page ends the program
  with the non-starter status before anything is allocated; a request of at least one
  page never ends it during acquisition, whatever the system answers; and when the page
  size is not 0, the first \<^verbatim>\<open>malloc\<close> succeeds and \<^verbatim>\<open>mlock\<close> succeeds or fails for an unknown
  reason, acquisition returns that block at the full request. Whenever acquisition returns a region, after any
  sequence of shrinks and restarts, with pages of a power of two up to \<open>2\<^sup>3\<^sup>0\<close> bytes, a
  request below \<open>2\<^sup>3\<^sup>1\<close> bytes and no \<^verbatim>\<open>malloc\<close> call of the run that asked for more than the
  request (the \<^verbatim>\<open>size_t\<close> request did not wrap around while shrinking): the request was at
  least one page, the size granted is at most the request, the usable size is at most the
  size granted and so at most the request, and it is the size granted when the block
  starts on a page boundary. When the block is off a page boundary and was allocated with
  pinning off (the last call of acquisition is not an \<^verbatim>\<open>mlock\<close>), the usable size is the size
  granted less the distance from the block to the next page boundary. The usable size is
  positive when a block was obtained that starts on a page boundary, or was granted at
  least two pages, or was granted at least one page with pinning off. Nothing makes the
  usable size even.
\<close>

theorem heap_acquisition:
  assumes heap: "\<not> cfg_hugepages cfg" "\<not> cfg_use_phys cfg"
    and sc: "cfg_sc_page_size cfg \<noteq> - 1"
  shows "(cfg_request cfg < cfg_sc_page_size cfg \<longrightarrow>
            acquire cfg w = Exits EXIT_FAIL_NONSTARTER w)
       \<and> (\<not> cfg_request cfg < cfg_sc_page_size cfg \<longrightarrow> acquire cfg w \<noteq> Exits c w')
       \<and> (\<not> cfg_request cfg < cfg_sc_page_size cfg \<longrightarrow> cfg_sc_page_size cfg \<noteq> 0 \<longrightarrow>
            mallocs w = p # ps \<longrightarrow> p \<noteq> 0 \<longrightarrow> mlocks w = m # ms \<longrightarrow>
            (m = MlockOk \<or> m = MlockErr EOTHER) \<longrightarrow>
            (\<exists>a w1. acquire cfg w = Returns (a, w1) \<and> buf a = p
               \<and> wantbytes a = cfg_request cfg))
       \<and> (acquire cfg w = Returns (a, w1) \<longrightarrow>
            cfg_sc_page_size cfg = 2 ^ k \<longrightarrow> k < 31 \<longrightarrow> uint (cfg_request cfg) < 2 ^ 31 \<longrightarrow>
            (\<forall>n. EvMalloc n \<in> set (trace w1) \<longrightarrow> n \<le> cfg_request cfg) \<longrightarrow>
            \<not> cfg_request cfg < cfg_sc_page_size cfg
            \<and> wantbytes a \<le> cfg_request cfg
            \<and> sint (bufsize a) \<le> uint (wantbytes a)
            \<and> sint (bufsize a) \<le> uint (cfg_request cfg)
            \<and> (buf a mod 2 ^ k = 0 \<longrightarrow> sint (bufsize a) = uint (wantbytes a))
            \<and> (buf a mod 2 ^ k \<noteq> 0 \<longrightarrow> \<not> ends_with_mlock (trace w1) \<longrightarrow>
                 sint (bufsize a) = uint (wantbytes a) - (2 ^ k - uint (buf a) mod 2 ^ k))
            \<and> (buf a \<noteq> 0 \<longrightarrow>
                 buf a mod 2 ^ k = 0 \<or> 2 * 2 ^ k \<le> uint (wantbytes a)
                 \<or> \<not> ends_with_mlock (trace w1) \<and> 2 ^ k \<le> uint (wantbytes a) \<longrightarrow>
                 0 < sint (bufsize a)))"
proof -
  note start = acquire_def setup_alloc_Returns [OF sc] and_then_def Let_def
    wantmb_within_maxmb wantmb_within_maxmb_mask alloc_init_def
  have below: "acquire cfg w = Exits EXIT_FAIL_NONSTARTER w"
    if "cfg_request cfg < cfg_sc_page_size cfg"
    using that heap by (simp add: start)
  have never: "acquire cfg w \<noteq> Exits c w'" if "\<not> cfg_request cfg < cfg_sc_page_size cfg"
    using that heap by (auto simp: start malloc_retry_no_exit split: outcome.splits)
  have first: "\<exists>a w1. acquire cfg w = Returns (a, w1) \<and> buf a = p
      \<and> wantbytes a = cfg_request cfg"
    if big: "\<not> cfg_request cfg < cfg_sc_page_size cfg" and nz: "cfg_sc_page_size cfg \<noteq> 0"
      and w: "mallocs w = p # ps" "p \<noteq> 0" "mlocks w = m # ms"
      and m: "m = MlockOk \<or> m = MlockErr EOTHER"
  proof -
    define R where "R = cfg_request cfg"
    define a1 where "a1 = alloc_init\<lparr>use_hugepages := False, pagesize := cfg_sc_page_size cfg,
        pagesizemask := NOT (cfg_sc_page_size cfg - 1), wantbytes := R, buf := 0\<rparr>"
    from big nz have "R \<noteq> 0" by (auto simp: R_def word_gt_0)
    then have a1: "buf a1 = 0" "wantbytes a1 \<noteq> 0" "do_mlock a1"
      by (simp_all add: a1_def alloc_init_def)
    from heap_first_attempt [OF a1 w m, of R] obtain a' w1 where
      retry: "malloc_retry R a1 w = Returns (a', w1)"
      and a': "buf a' = p" "wantbytes a' = R"
      by (auto simp: a1_def)
    from heap big retry have "acquire cfg w = Returns (align_to_page a', w1)"
      by (simp add: start R_def a1_def)
    moreover have "buf (align_to_page a') = p" "wantbytes (align_to_page a') = R"
      using a' by (simp_all add: align_to_page_def Let_def)
    ultimately show ?thesis by (simp add: R_def)
  qed
  have usable: "\<not> cfg_request cfg < cfg_sc_page_size cfg
            \<and> wantbytes a \<le> cfg_request cfg
            \<and> sint (bufsize a) \<le> uint (wantbytes a)
            \<and> sint (bufsize a) \<le> uint (cfg_request cfg)
            \<and> (buf a mod 2 ^ k = 0 \<longrightarrow> sint (bufsize a) = uint (wantbytes a))
            \<and> (buf a mod 2 ^ k \<noteq> 0 \<longrightarrow> \<not> ends_with_mlock (trace w1) \<longrightarrow>
                 sint (bufsize a) = uint (wantbytes a) - (2 ^ k - uint (buf a) mod 2 ^ k))
            \<and> (buf a \<noteq> 0 \<longrightarrow>
                 buf a mod 2 ^ k = 0 \<or> 2 * 2 ^ k \<le> uint (wantbytes a)
                 \<or> \<not> ends_with_mlock (trace w1) \<and> 2 ^ k \<le> uint (wantbytes a) \<longrightarrow>
                 0 < sint (bufsize a))"
    if ret: "acquire cfg w = Returns (a, w1)"
      and page: "cfg_sc_page_size cfg = 2 ^ k" and k: "k < 31"
      and small: "uint (cfg_request cfg) < 2 ^ 31"
      and nowrap: "\<forall>n. EvMalloc n \<in> set (trace w1) \<longrightarrow> n \<le> cfg_request cfg"
  proof -
    note region = heap_region [OF heap ret]
    from below ret have big: "\<not> cfg_request cfg < cfg_sc_page_size cfg" by auto
    from region(3) nowrap have le: "wantbytes a \<le> cfg_request cfg" by auto
    then have le': "uint (wantbytes a) \<le> uint (cfg_request cfg)"
      by (simp add: word_le_def)
    with small have small': "uint (wantbytes a) < 2 ^ 31" by linarith
    note use = heap_usable [OF heap ret page k small']
    have pos: "0 < uint (wantbytes a)" if "buf a \<noteq> 0"
    proof -
      from that region(4) have "wantbytes a \<noteq> 0" by simp
      then have "uint (wantbytes a) \<noteq> 0" by (simp only: unsigned_eq_0_iff) simp
      moreover have "0 \<le> uint (wantbytes a)" by simp
      ultimately show ?thesis by linarith
    qed
    from big le use le' pos show ?thesis by auto
  qed
  from below never first usable show ?thesis by blast
qed

theorem heap_acquisition_witness:
  "\<not> cfg_hugepages shrunk_cfg \<and> \<not> cfg_use_phys shrunk_cfg
   \<and> cfg_sc_page_size shrunk_cfg = 2 ^ 12 \<and> cfg_request shrunk_cfg = 12288
   \<and> cfg_request small_cfg < cfg_sc_page_size small_cfg
   \<and> acquire small_cfg shrunk_answers = Exits 1 shrunk_answers
   \<and> acquire shrunk_cfg shrunk_answers \<noteq> Exits 1 shrunk_answers
   \<and> (\<exists>a w1. acquire shrunk_cfg faulty_answers = Returns (a, w1) \<and> buf a = 0x10010
         \<and> wantbytes a = 12288)
   \<and> acquire shrunk_cfg shrunk_answers =
       Returns (shrunk_region, \<lparr>mallocs = [], mmaps = [], mlocks = [], verdicts = [],
         trace = [EvMalloc 12288, EvMlock 0x11000 8208, EvFree 0x10010, EvMalloc 8192,
           EvMlock 0x21000 4112]\<rparr>)
   \<and> buf shrunk_region = 0x20010 \<and> wantbytes shrunk_region = 8192
   \<and> wantbytes shrunk_region \<le> cfg_request shrunk_cfg
   \<and> sint (bufsize shrunk_region) \<le> 8192
   \<and> sint (bufsize shrunk_region) \<le> 12288
   \<and> 0 < sint (bufsize shrunk_region)
   \<and> acquire faulty_cfg restart_answers =
       Returns (restart_region, \<lparr>mallocs = [], mmaps = [], mlocks = [], verdicts = [],
         trace = [EvMalloc 8192, EvMlock 0x11000 4112, EvFree 0x10010, EvMalloc 8192]\<rparr>)
   \<and> cfg_request faulty_cfg = 8192
   \<and> buf restart_region = 0x20010 \<and> wantbytes restart_region = 8192
   \<and> sint (bufsize restart_region) = 8192 - (4096 - 16)
   \<and> 0 < sint (bufsize restart_region)"
proof -
  have heap: "\<not> cfg_hugepages shrunk_cfg" "\<not> cfg_use_phys shrunk_cfg"
    and sc: "cfg_sc_page_size shrunk_cfg \<noteq> - 1"
    and big: "\<not> cfg_request shrunk_cfg < cfg_sc_page_size shrunk_cfg"
    and page: "cfg_sc_page_size shrunk_cfg = 2 ^ 12" "cfg_sc_page_size shrunk_cfg \<noteq> 0"
    and k: "(12 :: nat) < 31"
    and req: "cfg_request shrunk_cfg = 12288"
    and small: "uint (cfg_request shrunk_cfg) < 2 ^ 31"
    by (simp_all add: shrunk_cfg_def odd_cfg_def)
  have heap': "\<not> cfg_hugepages small_cfg" "\<not> cfg_use_phys small_cfg"
    and sc': "cfg_sc_page_size small_cfg \<noteq> - 1"
    and less: "cfg_request small_cfg < cfg_sc_page_size small_cfg"
    by (simp_all add: small_cfg_def odd_cfg_def)
  have w: "mallocs faulty_answers = 0x10010 # []" "(0x10010 :: ptr) \<noteq> 0"
    "mlocks faulty_answers = MlockOk # []" "MlockOk = MlockOk \<or> MlockOk = MlockErr EOTHER"
    by (simp_all add: faulty_answers_def)
  have nowrap: "\<forall>n. EvMalloc n \<in> set (trace \<lparr>mallocs = [], mmaps = [], mlocks = [],
      verdicts = [], trace = [EvMalloc 12288, EvMlock 0x11000 8208, EvFree 0x10010,
        EvMalloc 8192, EvMlock 0x21000 4112]\<rparr>) \<longrightarrow> n \<le> cfg_request shrunk_cfg"
    by (auto simp: req)
  have region: "buf shrunk_region = 0x20010" "wantbytes shrunk_region = 8192"
    "buf shrunk_region \<noteq> 0" "2 * 2 ^ 12 \<le> uint (wantbytes shrunk_region)"
    by (simp_all add: shrunk_region_def)
  from heap_acquisition [OF heap' sc', where w = shrunk_answers, THEN conjunct1] less
  have first: "acquire small_cfg shrunk_answers = Exits 1 shrunk_answers"
    by (simp add: EXIT_FAIL_NONSTARTER_def)
  from heap_acquisition [OF heap sc, where w = shrunk_answers and c = 1 and w' = shrunk_answers,
      THEN conjunct2,
      THEN conjunct1] big
  have second: "acquire shrunk_cfg shrunk_answers \<noteq> Exits 1 shrunk_answers"
    by simp
  from heap_acquisition [OF heap sc, where w = faulty_answers and p = "0x10010" and ps = "[]"
      and m = MlockOk and ms = "[]",
      THEN conjunct2, THEN conjunct2, THEN conjunct1, rule_format, OF big page(2) w]
  have third: "\<exists>a w1. acquire shrunk_cfg faulty_answers = Returns (a, w1) \<and> buf a = 0x10010
         \<and> wantbytes a = 12288"
    by (simp add: req)
  from heap_acquisition [OF heap sc, THEN conjunct2, THEN conjunct2, THEN conjunct2,
      rule_format, OF shrunk_run page(1) k small nowrap [rule_format]] region
  have fourth: "wantbytes shrunk_region \<le> cfg_request shrunk_cfg
      \<and> sint (bufsize shrunk_region) \<le> 8192 \<and> sint (bufsize shrunk_region) \<le> 12288
      \<and> 0 < sint (bufsize shrunk_region)"
    by (simp add: req)
  have heap2: "\<not> cfg_hugepages faulty_cfg" "\<not> cfg_use_phys faulty_cfg"
    and sc2: "cfg_sc_page_size faulty_cfg \<noteq> - 1"
    and page2: "cfg_sc_page_size faulty_cfg = 2 ^ 12"
    and req2: "cfg_request faulty_cfg = 8192"
    and small2: "uint (cfg_request faulty_cfg) < 2 ^ 31"
    by (simp_all add: faulty_cfg_def odd_cfg_def)
  have nowrap2: "\<forall>n. EvMalloc n \<in> set (trace \<lparr>mallocs = [], mmaps = [], mlocks = [],
      verdicts = [], trace = [EvMalloc 8192, EvMlock 0x11000 4112, EvFree 0x10010,
        EvMalloc 8192]\<rparr>) \<longrightarrow> n \<le> cfg_request faulty_cfg"
    by (auto simp: req2)
  have off: "\<not> ends_with_mlock (trace \<lparr>mallocs = [], mmaps = [], mlocks = [],
      verdicts = [], trace = [EvMalloc 8192, EvMlock 0x11000 4112, EvFree 0x10010,
        EvMalloc 8192]\<rparr>)"
    by (simp add: ends_with_mlock_def)
  have region2: "buf restart_region = 0x20010" "wantbytes restart_region = 8192"
    "buf restart_region \<noteq> 0" "buf restart_region mod 2 ^ 12 \<noteq> 0"
    "uint (buf restart_region) mod 2 ^ 12 = 16" "2 ^ 12 \<le> uint (wantbytes restart_region)"
    by (simp_all add: restart_region_def)
  from heap_acquisition [OF heap2 sc2, THEN conjunct2, THEN conjunct2, THEN conjunct2,
      rule_format, OF restart_run page2 k small2 nowrap2 [rule_format]] region2 off
  have fifth: "sint (bufsize restart_region) = 8192 - (4096 - 16)
      \<and> 0 < sint (bufsize restart_region)"
    by simp
  from heap page(1) req less first second third shrunk_run region(1,2) fourth
    restart_run req2 region2(1,2) fifth
  show ?thesis by simp
qed

text \<open>
  C2. The free huge-page count takes part in the retry only when it is positive. With a
  count of 0 and a request of two huge pages that cannot be mapped, the rule "clamp to the
  free pages when they amount to less than the request" gives a request of 0; the program
  asks for one page less instead and maps one huge page.
\<close>

theorem no_free_pages_not_clamped:
  "acquire none_free_cfg none_free_answers =
     Returns (huge_region\<lparr>wantbytes := 2097152\<rparr>,
       \<lparr>mallocs = [], mmaps = [], mlocks = [], verdicts = [],
        trace = [EvMmapHuge 4194304, EvMmapHuge 2097152]\<rparr>)
   \<and> clamp_or_shrink (get_free_hugepages (cfg_hp_file none_free_cfg)) 2097152 4194304 = 0"
  by (simp add: acquire_def setup_alloc_def memtester_pagesize_def and_then_def huge_cfg_def
      none_free_cfg_def none_free_answers_def huge_region_def alloc_init_def Let_def
      alloc_using_hugepages_def round_to_pagesize_def hugepages_while.simps called_def
      align_to_page_def mask_eq_exp_minus_1 get_free_hugepages_def hugepages_enomem_def
      MAP_FAILED_def clamp_or_shrink_def)

text \<open>
  C2, as the code has it. \<^verbatim>\<open>alloc_using_hugepages\<close> reads the free huge-page count once,
  rounds the request up to the next multiple of the page size (when that does not
  overflow \<^verbatim>\<open>size_t\<close>) and enters the loop. When a mapping fails with \<^verbatim>\<open>ENOMEM\<close>, the request
  becomes count times page size if the count is positive and that product is smaller
  than the request, and one page less otherwise; while the new request is at least one
  page, the mapping is tried again with it.
\<close>

theorem hugepage_degrade:
  assumes page: "pagesize a \<noteq> 0" and fits: "unat (wantbytes a) + unat (pagesize a) < 2 ^ 64"
  shows "(\<exists>r. alloc_using_hugepages f a w
                = hugepages_while (get_free_hugepages f) (a\<lparr>wantbytes := r\<rparr>) w
            \<and> unat (pagesize a) dvd unat r \<and> unat (wantbytes a) \<le> unat r
            \<and> unat r < unat (wantbytes a) + unat (pagesize a))
       \<and> (buf b = 0 \<longrightarrow> wantbytes b \<noteq> 0 \<longrightarrow> mmaps v = MapErr ENOMEM # rs \<longrightarrow>
            (let want = (if 0 < sint fh \<and> fh * pagesize b < wantbytes b
                         then fh * pagesize b else wantbytes b - pagesize b)
             in \<not> want < pagesize b \<longrightarrow>
                hugepages_while fh b v
                  = hugepages_while fh (b\<lparr>buf := 0, wantbytes := want\<rparr>)
                      (called (EvMmapHuge (wantbytes b)) (v\<lparr>mmaps := rs\<rparr>))))"
proof (rule conjI)
  have "round_to_pagesize a = a\<lparr>wantbytes := wantbytes (round_to_pagesize a)\<rparr>"
    by (simp add: round_to_pagesize_def)
  then have "alloc_using_hugepages f a w
      = hugepages_while (get_free_hugepages f) (a\<lparr>wantbytes := wantbytes (round_to_pagesize a)\<rparr>) w"
    by (simp add: alloc_using_hugepages_def)
  with round_to_pagesize_unat [OF page fits]
  show "\<exists>r. alloc_using_hugepages f a w
                = hugepages_while (get_free_hugepages f) (a\<lparr>wantbytes := r\<rparr>) w
            \<and> unat (pagesize a) dvd unat r \<and> unat (wantbytes a) \<le> unat r
            \<and> unat r < unat (wantbytes a) + unat (pagesize a)"
    by blast
next
  show "buf b = 0 \<longrightarrow> wantbytes b \<noteq> 0 \<longrightarrow> mmaps v = MapErr ENOMEM # rs \<longrightarrow>
            (let want = (if 0 < sint fh \<and> fh * pagesize b < wantbytes b
                         then fh * pagesize b else wantbytes b - pagesize b)
             in \<not> want < pagesize b \<longrightarrow>
                hugepages_while fh b v
                  = hugepages_while fh (b\<lparr>buf := 0, wantbytes := want\<rparr>)
                      (called (EvMmapHuge (wantbytes b)) (v\<lparr>mmaps := rs\<rparr>)))"
    by (simp add: hugepages_while.simps [of fh b v] Let_def hugepages_enomem_def)
qed

theorem hugepage_degrade_witness:
  "pagesize huge_before \<noteq> 0
   \<and> unat (wantbytes huge_before) + unat (pagesize huge_before) < 2 ^ 64
   \<and> (\<exists>r. alloc_using_hugepages (Counter 1) huge_before degrade_answers
             = hugepages_while 1 (huge_before\<lparr>wantbytes := r\<rparr>) degrade_answers
          \<and> unat r = 6291456)
   \<and> hugepages_while 1 (huge_before\<lparr>wantbytes := 6291456\<rparr>) degrade_answers
       = Returns (huge_before\<lparr>buf := 0x7f0000200000, wantbytes := 2097152\<rparr>,
           \<lparr>mallocs = [], mmaps = [], mlocks = [], verdicts = [],
            trace = [EvMmapHuge 6291456, EvMmapHuge 2097152]\<rparr>)
   \<and> hugepages_while (- 1) (huge_before\<lparr>wantbytes := 6291456\<rparr>) degrade_answers
       = Returns (huge_before\<lparr>buf := 0x7f0000200000, wantbytes := 4194304\<rparr>,
           \<lparr>mallocs = [], mmaps = [], mlocks = [], verdicts = [],
            trace = [EvMmapHuge 6291456, EvMmapHuge 4194304]\<rparr>)"
proof -
  have page: "pagesize huge_before \<noteq> 0"
    and fits: "unat (wantbytes huge_before) + unat (pagesize huge_before) < 2 ^ 64"
    by (simp_all add: huge_before_def)
  note deg = hugepage_degrade [OF page fits]
  from deg [of "Counter 1" degrade_answers, THEN conjunct1]
  obtain r where r: "alloc_using_hugepages (Counter 1) huge_before degrade_answers
        = hugepages_while 1 (huge_before\<lparr>wantbytes := r\<rparr>) degrade_answers"
    and "2097152 dvd unat r" and "4194309 \<le> unat r" and "unat r < 4194309 + 2097152"
    by (auto simp: huge_before_def get_free_hugepages_def)
  then obtain k where k: "unat r = 2097152 * k" and "4194309 \<le> 2097152 * k"
    and "2097152 * k < 4194309 + 2097152"
    by (auto elim: dvdE)
  then have "k = 3" by linarith
  with k have "unat r = 6291456" by simp
  with r have first: "\<exists>r. alloc_using_hugepages (Counter 1) huge_before degrade_answers
             = hugepages_while 1 (huge_before\<lparr>wantbytes := r\<rparr>) degrade_answers
          \<and> unat r = 6291456"
    by blast
  note ev = huge_before_def degrade_answers_def hugepages_while.simps called_def Let_def
    hugepages_enomem_def MAP_FAILED_def
  from deg [of _ _ "huge_before\<lparr>wantbytes := 6291456\<rparr>" degrade_answers "[MapOk 0x7f0000200000]" 1,
      THEN conjunct2]
  have clamp: "hugepages_while 1 (huge_before\<lparr>wantbytes := 6291456\<rparr>) degrade_answers
       = Returns (huge_before\<lparr>buf := 0x7f0000200000, wantbytes := 2097152\<rparr>,
           \<lparr>mallocs = [], mmaps = [], mlocks = [], verdicts = [],
            trace = [EvMmapHuge 6291456, EvMmapHuge 2097152]\<rparr>)"
    by (simp add: ev)
  from deg [of _ _ "huge_before\<lparr>wantbytes := 6291456\<rparr>" degrade_answers "[MapOk 0x7f0000200000]" "- 1",
      THEN conjunct2]
  have shrink: "hugepages_while (- 1) (huge_before\<lparr>wantbytes := 6291456\<rparr>) degrade_answers
       = Returns (huge_before\<lparr>buf := 0x7f0000200000, wantbytes := 4194304\<rparr>,
           \<lparr>mallocs = [], mmaps = [], mlocks = [], verdicts = [],
            trace = [EvMmapHuge 6291456, EvMmapHuge 4194304]\<rparr>)"
    by (simp add: ev)
  from page fits first clamp shrink show ?thesis by simp
qed

text \<open>
  C3. Pinning is requested and \<^verbatim>\<open>mlock\<close> on the range that starts at \<open>aligned\<close> and is
  \<open>bufsize\<close> bytes long fails. With \<^verbatim>\<open>EAGAIN\<close> or \<^verbatim>\<open>ENOMEM\<close> the buffer is freed, the request
  is reduced by one page and the routine returns 0 with pinning still requested, so the
  loop in \<^verbatim>\<open>main\<close> allocates again. With \<^verbatim>\<open>EPERM\<close> pinning is switched off, the buffer is
  freed, the request is set back to the original size and allocation starts again. With
  any other error pinning is switched off and the routine reports the region it already
  has, which the loop in \<^verbatim>\<open>main\<close> accepts.
\<close>

theorem pin_failure_handling:
  fixes wantbytes_orig :: size_t
  assumes mw: "malloc_while a0 w0 = Returns (a1, w1)"
    and pin: "do_mlock a0"
    and ans: "mlocks w1 = MlockErr e # rs"
  defines "a3 \<equiv> align_to_page (a1\<lparr>bufsize := ucast (wantbytes a1)\<rparr>)"
  defines "w2 \<equiv> called (EvMlock (aligned a3) (scast (bufsize a3))) (w1\<lparr>mlocks := rs\<rparr>)"
  defines "shrunk \<equiv> a3\<lparr>buf := 0, wantbytes := wantbytes a1 - pagesize a1\<rparr>"
  defines "unpinned \<equiv> a3\<lparr>do_mlock := False, buf := 0, wantbytes := wantbytes_orig\<rparr>"
  shows "(e = EAGAIN \<or> e = ENOMEM \<longrightarrow>
            alloc_using_malloc a0 wantbytes_orig w0
              = Returns (shrunk, called (EvFree (buf a1)) w2, 0)
          \<and> do_mlock shrunk
          \<and> malloc_retry wantbytes_orig a0 w0
              = malloc_retry wantbytes_orig shrunk (called (EvFree (buf a1)) w2))
       \<and> (e = EPERM \<longrightarrow>
            alloc_using_malloc a0 wantbytes_orig w0
              = Returns (unpinned, called (EvFree (buf a1)) w2, 0)
          \<and> malloc_retry wantbytes_orig a0 w0
              = malloc_retry wantbytes_orig unpinned (called (EvFree (buf a1)) w2))
       \<and> (e = EOTHER \<longrightarrow>
            alloc_using_malloc a0 wantbytes_orig w0 = Returns (a3\<lparr>do_mlock := False\<rparr>, w2, 1)
          \<and> malloc_retry wantbytes_orig a0 w0 = Returns (a3\<lparr>do_mlock := False\<rparr>, w2)
          \<and> buf a3 = buf a1 \<and> wantbytes a3 = wantbytes a1)"
proof -
  from malloc_while_keeps [OF mw] pin have pin1: "do_mlock a1" by simp
  have a3: "buf a3 = buf a1" "wantbytes a3 = wantbytes a1" "pagesize a3 = pagesize a1"
    "do_mlock a3"
    using pin1 by (simp_all add: a3_def align_to_page_def Let_def)
  have call: "alloc_using_malloc a0 wantbytes_orig w0
      = Returns (mlock_failed e wantbytes_orig a3 w2)"
    using mw pin1 ans by (simp add: alloc_using_malloc_def Let_def a3_def w2_def)
  show ?thesis
    using a3 call
    by (cases e)
      (simp_all add: malloc_retry.simps [of wantbytes_orig a0 w0] mlock_failed_def
        shrunk_def unpinned_def)
qed

theorem pin_failure_handling_witness:
  "malloc_retry 8192 heap_before (refused EAGAIN) =
     Returns (heap_before\<lparr>buf := 0x20000, aligned := 0x20000, wantbytes := 4096,
                bufsize := 4096\<rparr>,
       \<lparr>mallocs = [], mmaps = [], mlocks = [], verdicts = [],
        trace = [EvMalloc 8192, EvMlock 0x11000 4112, EvFree 0x10010, EvMalloc 4096,
                 EvMlock 0x20000 4096]\<rparr>)
   \<and> malloc_retry 8192 heap_before (refused EPERM) =
     Returns (heap_before\<lparr>buf := 0x20000, aligned := 0x11000, bufsize := 8192,
                do_mlock := False\<rparr>,
       \<lparr>mallocs = [], mmaps = [], mlocks = [MlockOk], verdicts = [],
        trace = [EvMalloc 8192, EvMlock 0x11000 4112, EvFree 0x10010, EvMalloc 8192]\<rparr>)
   \<and> malloc_retry 8192 heap_before (refused EOTHER) =
     Returns (heap_after\<lparr>do_mlock := False\<rparr>,
       \<lparr>mallocs = [0x20000], mmaps = [], mlocks = [MlockOk], verdicts = [],
        trace = [EvMalloc 8192, EvMlock 0x11000 4112]\<rparr>)"
proof -
  have pin: "do_mlock heap_before"
    by (simp add: heap_before_def alloc_init_def)
  have ans: "mlocks \<lparr>mallocs = [0x20000], mmaps = [], mlocks = [MlockErr e, MlockOk],
      verdicts = [], trace = [EvMalloc 8192]\<rparr> = MlockErr e # [MlockOk]" for e
    by simp
  note ev = heap_before_def heap_after_def alloc_init_def align_to_page_def called_def Let_def
    malloc_retry.simps alloc_using_malloc_def malloc_while.simps
  from pin_failure_handling [OF refused_first pin ans, of EAGAIN 8192]
  have "malloc_retry 8192 heap_before (refused EAGAIN) =
     Returns (heap_before\<lparr>buf := 0x20000, aligned := 0x20000, wantbytes := 4096,
                bufsize := 4096\<rparr>,
       \<lparr>mallocs = [], mmaps = [], mlocks = [], verdicts = [],
        trace = [EvMalloc 8192, EvMlock 0x11000 4112, EvFree 0x10010, EvMalloc 4096,
                 EvMlock 0x20000 4096]\<rparr>)"
    by (simp add: ev)
  moreover from pin_failure_handling [OF refused_first pin ans, of EPERM 8192]
  have "malloc_retry 8192 heap_before (refused EPERM) =
     Returns (heap_before\<lparr>buf := 0x20000, aligned := 0x11000, bufsize := 8192,
                do_mlock := False\<rparr>,
       \<lparr>mallocs = [], mmaps = [], mlocks = [MlockOk], verdicts = [],
        trace = [EvMalloc 8192, EvMlock 0x11000 4112, EvFree 0x10010, EvMalloc 8192]\<rparr>)"
    by (simp add: ev)
  moreover from pin_failure_handling [OF refused_first pin ans, of EOTHER 8192]
  have "malloc_retry 8192 heap_before (refused EOTHER) =
     Returns (heap_after\<lparr>do_mlock := False\<rparr>,
       \<lparr>mallocs = [0x20000], mmaps = [], mlocks = [MlockOk], verdicts = [],
        trace = [EvMalloc 8192, EvMlock 0x11000 4112]\<rparr>)"
    by (simp add: ev)
  ultimately show ?thesis by simp
qed

text \<open>
  C4. \<^verbatim>\<open>main\<close> splits the region into two halves of \<open>bufsize / 2\<close> bytes each, the first at
  \<open>aligned\<close> and the second right behind it. Nothing makes \<open>bufsize\<close> even. A request of
  4097 bytes that \<^verbatim>\<open>malloc\<close> serves at a page boundary gives a region of 4097 usable
  bytes and two halves of 2048 bytes; the last usable byte is in neither half.
\<close>

theorem odd_region_not_covered:
  "acquire odd_cfg odd_answers =
     Returns (odd_region, \<lparr>mallocs = [], mmaps = [], mlocks = [], verdicts = [],
       trace = [EvMalloc 4097, EvMlock 0x10000 4097]\<rparr>)
   \<and> bufsize odd_region = 4097
   \<and> halflen (split_region odd_region) = 2048
   \<and> \<not> covers_usable odd_region (split_region odd_region)"
  using odd_run
  by (simp add: odd_region_def split_region_def covers_usable_def Let_def signed_divide_int_def)

text \<open>
  C4, as the code has it. For a region whose \<open>bufsize\<close> is not negative the two halves
  have the same length \<open>bufsize div 2\<close>, the first starts at \<open>aligned\<close> and the second where
  the first ends, each is handed to the tests as \<open>halflen / sizeof(ul)\<close> words, and
  together they leave out \<open>bufsize mod 2\<close> bytes of the region: they cover the usable bytes
  exactly if and only if \<open>bufsize\<close> is even.
\<close>

theorem halves_of_region:
  assumes "0 \<le> sint (bufsize a)"
  shows "bufa (split_region a) = aligned a
    \<and> bufb (split_region a) = bufa (split_region a) + halflen (split_region a)
    \<and> uint (halflen (split_region a)) = sint (bufsize a) div 2
    \<and> count (split_region a) = halflen (split_region a) div sizeof_ul
    \<and> sint (bufsize a) - 2 * uint (halflen (split_region a)) = sint (bufsize a) mod 2
    \<and> (covers_usable a (split_region a) \<longleftrightarrow> even (sint (bufsize a)))"
proof -
  note h = halflen_nonneg [OF assms]
  have "bufa (split_region a) = aligned a"
    "bufb (split_region a) = bufa (split_region a) + halflen (split_region a)"
    "count (split_region a) = halflen (split_region a) div sizeof_ul"
    by (simp_all add: split_region_def Let_def)
  moreover have "sint (bufsize a) - 2 * uint (halflen (split_region a)) = sint (bufsize a) mod 2"
    using h by (simp add: minus_mult_div_eq_mod)
  moreover have "covers_usable a (split_region a) \<longleftrightarrow> even (sint (bufsize a))"
    unfolding covers_usable_def using h calculation by presburger
  ultimately show ?thesis using h by simp
qed

theorem halves_of_region_witness:
  "0 \<le> sint (bufsize odd_region)
   \<and> uint (halflen (split_region odd_region)) = 2048
   \<and> sint (bufsize odd_region) - 2 * uint (halflen (split_region odd_region)) = 1
   \<and> \<not> covers_usable odd_region (split_region odd_region)
   \<and> \<not> even (sint (bufsize odd_region))"
proof -
  have nonneg: "0 \<le> sint (bufsize odd_region)"
    by (simp add: odd_region_def)
  from halves_of_region [OF nonneg] nonneg show ?thesis
    by (simp add: odd_region_def)
qed

text \<open>
  C5. The exit status. When acquisition ends the program, the status is the non-starter
  status 0x01 and no test has been called. Otherwise, for a loop count \<open>N\<close> that ends the
  loop, the status is 0x02 if one of the \<open>N\<close> stuck-address tests reported a fault, or-ed
  with 0x04 if one of the tests of the table reported a fault in one of the \<open>N\<close> passes. The
  calls made are the \<open>N\<close> full passes whatever the verdicts are: a fault sets its flag and
  the remaining tests and loops run as they would have without it.
\<close>

theorem exit_status:
  "(acquire cfg w = Exits c w1 \<longrightarrow>
      main cfg w = Exits c w1 \<and> c = EXIT_FAIL_NONSTARTER
      \<and> (test_counts (trace w) = [] \<longrightarrow> test_counts (trace w1) = []))
   \<and> (acquire cfg w = Returns (a, w1) \<longrightarrow> cfg_loops cfg \<noteq> 0 \<longrightarrow> cfg_loops cfg \<noteq> - 1 \<longrightarrow>
      unat (cfg_loops cfg) * Suc (length (selected (cfg_testmask cfg))) \<le> length (verdicts w1) \<longrightarrow>
      main cfg w =
        Exits (address_flag (stuck_verdicts (length (selected (cfg_testmask cfg)))
                   (unat (cfg_loops cfg)) (verdicts w1))
               OR other_flag (pattern_verdicts (length (selected (cfg_testmask cfg)))
                   (unat (cfg_loops cfg)) (verdicts w1)))
          (w1\<lparr>verdicts := drop (unat (cfg_loops cfg) * Suc (length (selected (cfg_testmask cfg))))
                             (verdicts w1),
              trace := trace w1
                @ concat (replicate (unat (cfg_loops cfg)) (pass_events (cfg_testmask cfg) a))
                @ (if do_mlock a then [EvMunlock (aligned a) (scast (bufsize a))] else [])\<rparr>))"
proof (intro conjI impI)
  assume ex: "acquire cfg w = Exits c w1"
  then show "main cfg w = Exits c w1" by (simp add: main_def and_then_def)
  from ex show "c = EXIT_FAIL_NONSTARTER" by (rule acquire_Exits)
  assume "test_counts (trace w) = []"
  then have "quiet w" by (simp add: quiet_def)
  from acquire_quiet [OF this, of cfg] ex show "test_counts (trace w1) = []"
    by (simp add: all_ends_def quiet_def)
next
  assume "acquire cfg w = Returns (a, w1)" and "cfg_loops cfg \<noteq> 0" and "cfg_loops cfg \<noteq> - 1"
    and "unat (cfg_loops cfg) * Suc (length (selected (cfg_testmask cfg))) \<le> length (verdicts w1)"
  then show "main cfg w =
        Exits (address_flag (stuck_verdicts (length (selected (cfg_testmask cfg)))
                   (unat (cfg_loops cfg)) (verdicts w1))
               OR other_flag (pattern_verdicts (length (selected (cfg_testmask cfg)))
                   (unat (cfg_loops cfg)) (verdicts w1)))
          (w1\<lparr>verdicts := drop (unat (cfg_loops cfg) * Suc (length (selected (cfg_testmask cfg))))
                             (verdicts w1),
              trace := trace w1
                @ concat (replicate (unat (cfg_loops cfg)) (pass_events (cfg_testmask cfg) a))
                @ (if do_mlock a then [EvMunlock (aligned a) (scast (bufsize a))] else [])\<rparr>)"
    by (simp add: main_def and_then_def passes_exact)
qed

theorem exit_status_witness:
  "main small_cfg faulty_answers = Exits 1 faulty_answers
   \<and> test_counts (trace faulty_answers) = []
   \<and> main faulty_cfg faulty_answers =
       Exits 6 \<lparr>mallocs = [], mmaps = [], mlocks = [], verdicts = [],
         trace = [EvMalloc 8192, EvMlock 0x11000 4112,
           EvStuckAddress 0x11000 4,
           EvTest ''Random Value'' 0x11000 0x11010 2, EvMemset 0x10010 8192,
           EvTest ''Compare XOR'' 0x11000 0x11010 2, EvMemset 0x10010 8192,
           EvStuckAddress 0x11000 4,
           EvTest ''Random Value'' 0x11000 0x11010 2, EvMemset 0x10010 8192,
           EvTest ''Compare XOR'' 0x11000 0x11010 2, EvMemset 0x10010 8192,
           EvMunlock 0x11000 32]\<rparr>"
proof -
  have loops: "cfg_loops faulty_cfg \<noteq> 0" "cfg_loops faulty_cfg \<noteq> - 1"
    by (simp_all add: faulty_cfg_def odd_cfg_def)
  have enough: "unat (cfg_loops faulty_cfg) * Suc (length (selected (cfg_testmask faulty_cfg)))
      \<le> length (verdicts \<lparr>mallocs = [], mmaps = [], mlocks = [],
            verdicts = [0, 1, 0, 1, 0, 0 :: cint],
            trace = [EvMalloc 8192, EvMlock 0x11000 4112]\<rparr>)"
    by (simp add: faulty_cfg_def odd_cfg_def selected_3)
  have sv: "stuck_verdicts (Suc (Suc 0)) 2 [0, 1, 0, 1, 0, 0 :: cint] = [0, 1]"
    and pv: "pattern_verdicts (Suc (Suc 0)) 2 [0, 1, 0, 1, 0, 0 :: cint] = [1, 0, 0, 0]"
    and twice: "replicate 2 x = [x, x]" for x :: "event list"
    by (simp_all add: numeral_2_eq_2)
  have quiet: "test_counts (trace faulty_answers) = []"
    by (simp add: faulty_answers_def test_counts_def map_filter_def)
  from exit_status [of small_cfg faulty_answers 1 faulty_answers] small_run quiet
  have "main small_cfg faulty_answers = Exits 1 faulty_answers" by simp
  moreover
  from exit_status [of faulty_cfg faulty_answers _ _ faulty_region, THEN conjunct2, rule_format,
      OF faulty_run loops enough]
  have "main faulty_cfg faulty_answers =
       Exits 6 \<lparr>mallocs = [], mmaps = [], mlocks = [], verdicts = [],
         trace = [EvMalloc 8192, EvMlock 0x11000 4112,
           EvStuckAddress 0x11000 4,
           EvTest ''Random Value'' 0x11000 0x11010 2, EvMemset 0x10010 8192,
           EvTest ''Compare XOR'' 0x11000 0x11010 2, EvMemset 0x10010 8192,
           EvStuckAddress 0x11000 4,
           EvTest ''Random Value'' 0x11000 0x11010 2, EvMemset 0x10010 8192,
           EvTest ''Compare XOR'' 0x11000 0x11010 2, EvMemset 0x10010 8192,
           EvMunlock 0x11000 32]\<rparr>"
    by (simp add: faulty_cfg_def odd_cfg_def selected_3 sv pv twice address_flag_def
        other_flag_def EXIT_FAIL_ADDRESSLINES_def EXIT_FAIL_OTHERTEST_def pass_events_def
        test_events_def faulty_region_def heap_after_def heap_before_def alloc_init_def
        split_region_def Let_def signed_divide_int_def sizeof_ul_def)
  ultimately show ?thesis using quiet by simp
qed

text \<open>
  C6. One iteration of the loop of \<^verbatim>\<open>main\<close> calls the stuck-address test and then, of the
  table, the entries whose ordinal bit is set in \<open>testmask\<close>, or all of them when
  \<open>testmask\<close> is 0, in table order; each is called with \<open>bufa\<close>, \<open>bufb\<close> and \<open>count\<close> as
  \<^verbatim>\<open>main\<close> derived them from the acquired region (its two halves and the word count of a
  half) and is followed by the \<^verbatim>\<open>memset\<close> of the buffer. Every iteration that the loop
  enters is such a pass, whatever the loop count, and a run of \<open>N\<close> loops after acquisition
  makes \<open>N\<close> of them on the region that acquisition returned. With the mask 0 the entries
  called are all entries before the sentinel, with the mask 3 the first two.
\<close>

theorem selected_tests_run:
  "(Suc (length (selected testmask)) \<le> length (verdicts w) \<longrightarrow>
      (\<exists>e'. one_pass testmask a (split_region a) e w =
         Returns (e', w\<lparr>verdicts := drop (Suc (length (selected testmask))) (verdicts w),
           trace := trace w
             @ EvStuckAddress (aligned a) (scast (bufsize a) div sizeof_ul)
             # concat (map (\<lambda>name.
                 [EvTest name (bufa (split_region a)) (bufb (split_region a))
                    (count (split_region a)),
                  EvMemset (buf a) (wantbytes a)])
                 (selected testmask))\<rparr>)))
   \<and> (loops = 0 \<or> loop \<le> loops \<longrightarrow> Suc (length (selected testmask)) \<le> length (verdicts w) \<longrightarrow>
      (\<exists>e'. test_loop loops loop testmask a (split_region a) e w =
         test_loop loops (loop + 1) testmask a (split_region a) e'
           (w\<lparr>verdicts := drop (Suc (length (selected testmask))) (verdicts w),
              trace := trace w
             @ EvStuckAddress (aligned a) (scast (bufsize a) div sizeof_ul)
             # concat (map (\<lambda>name.
                 [EvTest name (bufa (split_region a)) (bufb (split_region a))
                    (count (split_region a)),
                  EvMemset (buf a) (wantbytes a)])
                 (selected testmask))\<rparr>)))
   \<and> (acquire cfg w0 = Returns (a, w) \<longrightarrow> cfg_loops cfg \<noteq> 0 \<longrightarrow> cfg_loops cfg \<noteq> - 1 \<longrightarrow>
      unat (cfg_loops cfg) * Suc (length (selected (cfg_testmask cfg))) \<le> length (verdicts w) \<longrightarrow>
      (\<exists>c w'. main cfg w0 = Exits c w'
         \<and> trace w' = trace w
             @ concat (replicate (unat (cfg_loops cfg))
                 (EvStuckAddress (aligned a) (scast (bufsize a) div sizeof_ul)
                  # concat (map (\<lambda>name.
                      [EvTest name (bufa (split_region a)) (bufb (split_region a))
                         (count (split_region a)),
                       EvMemset (buf a) (wantbytes a)])
                      (selected (cfg_testmask cfg)))))
             @ (if do_mlock a then [EvMunlock (aligned a) (scast (bufsize a))] else [])))
   \<and> selected testmask =
       map snd (filter (\<lambda>(i, name). testmask = 0 \<or> bit testmask i)
         (enumerate 0 (map the (butlast tests))))
   \<and> selected 0 = map the (butlast tests)
   \<and> selected 3 = [the (tests ! 0), the (tests ! 1)]"
proof -
  have ev: "test_events a (split_region a) =
      (\<lambda>name. [EvTest name (bufa (split_region a)) (bufb (split_region a))
                  (count (split_region a)),
                EvMemset (buf a) (wantbytes a)])"
    by (rule ext) (simp add: test_events_def)
  have pass: "pass_events m a =
      EvStuckAddress (aligned a) (scast (bufsize a) div sizeof_ul)
      # concat (map (\<lambda>name.
          [EvTest name (bufa (split_region a)) (bufb (split_region a))
             (count (split_region a)),
           EvMemset (buf a) (wantbytes a)])
          (selected m))" for m
    by (simp only: pass_events_def ev)
  have one: "\<exists>e'. one_pass testmask a (split_region a) e w =
         Returns (e', w\<lparr>verdicts := drop (Suc (length (selected testmask))) (verdicts w),
           trace := trace w
             @ EvStuckAddress (aligned a) (scast (bufsize a) div sizeof_ul)
             # concat (map (\<lambda>name.
                 [EvTest name (bufa (split_region a)) (bufb (split_region a))
                    (count (split_region a)),
                  EvMemset (buf a) (wantbytes a)])
                 (selected testmask))\<rparr>)"
    if "Suc (length (selected testmask)) \<le> length (verdicts w)"
    using one_pass_enough [OF that, of a e] by (simp only: pass) blast
  have again: "\<exists>e'. test_loop loops loop testmask a (split_region a) e w =
         test_loop loops (loop + 1) testmask a (split_region a) e'
           (w\<lparr>verdicts := drop (Suc (length (selected testmask))) (verdicts w),
              trace := trace w
             @ EvStuckAddress (aligned a) (scast (bufsize a) div sizeof_ul)
             # concat (map (\<lambda>name.
                 [EvTest name (bufa (split_region a)) (bufb (split_region a))
                    (count (split_region a)),
                  EvMemset (buf a) (wantbytes a)])
                 (selected testmask))\<rparr>)"
    if go: "loops = 0 \<or> loop \<le> loops"
      and enough: "Suc (length (selected testmask)) \<le> length (verdicts w)"
  proof -
    from one [OF enough] obtain e' where
      "one_pass testmask a (split_region a) e w =
         Returns (e', w\<lparr>verdicts := drop (Suc (length (selected testmask))) (verdicts w),
           trace := trace w
             @ EvStuckAddress (aligned a) (scast (bufsize a) div sizeof_ul)
             # concat (map (\<lambda>name.
                 [EvTest name (bufa (split_region a)) (bufb (split_region a))
                    (count (split_region a)),
                  EvMemset (buf a) (wantbytes a)])
                 (selected testmask))\<rparr>)" by blast
    with go show ?thesis
      by (simp add: test_loop.simps [of loops loop testmask a "split_region a" e w])
        (rule exI, rule refl)
  qed
  have all: "\<exists>c w'. main cfg w0 = Exits c w'
         \<and> trace w' = trace w
             @ concat (replicate (unat (cfg_loops cfg))
                 (EvStuckAddress (aligned a) (scast (bufsize a) div sizeof_ul)
                  # concat (map (\<lambda>name.
                      [EvTest name (bufa (split_region a)) (bufb (split_region a))
                         (count (split_region a)),
                       EvMemset (buf a) (wantbytes a)])
                      (selected (cfg_testmask cfg)))))
             @ (if do_mlock a then [EvMunlock (aligned a) (scast (bufsize a))] else [])"
    if acq: "acquire cfg w0 = Returns (a, w)"
      and loops: "cfg_loops cfg \<noteq> 0" "cfg_loops cfg \<noteq> - 1"
      and enough: "unat (cfg_loops cfg) * Suc (length (selected (cfg_testmask cfg)))
        \<le> length (verdicts w)"
    using acq passes_exact [OF loops enough, of a]
    by (simp add: main_def and_then_def pass)
  have names: "map the (butlast tests) = test_names"
    by (simp add: tests_table)
  have two: "the (tests ! 0) = ''Random Value''" "the (tests ! 1) = ''Compare XOR''"
    by (simp_all add: tests_def)
  have sel: "selected testmask =
       map snd (filter (\<lambda>(i, name). testmask = 0 \<or> bit testmask i)
         (enumerate 0 (map the (butlast tests))))"
    by (simp only: names) (simp add: selected_def picked_def)
  have s0: "selected 0 = map the (butlast tests)"
    by (simp only: names selected_0)
  have s3: "selected 3 = [the (tests ! 0), the (tests ! 1)]"
    by (simp only: two selected_3)
  from one again all sel s0 s3 show ?thesis by blast
qed

theorem selected_tests_run_witness:
  "Suc (length (selected 3)) \<le> length (verdicts two_verdicts)
   \<and> (\<exists>e'. one_pass 3 heap_after (split_region heap_after) 0 two_verdicts =
         Returns (e', \<lparr>mallocs = [], mmaps = [], mlocks = [], verdicts = [],
           trace = [EvStuckAddress 0x11000 514,
                    EvTest ''Random Value'' 0x11000 0x11808 257, EvMemset 0x10010 8192,
                    EvTest ''Compare XOR'' 0x11000 0x11808 257, EvMemset 0x10010 8192]\<rparr>))
   \<and> (\<exists>e'. test_loop 0 1 3 heap_after (split_region heap_after) 0 two_verdicts =
         test_loop 0 2 3 heap_after (split_region heap_after) e'
           \<lparr>mallocs = [], mmaps = [], mlocks = [], verdicts = [],
            trace = [EvStuckAddress 0x11000 514,
                     EvTest ''Random Value'' 0x11000 0x11808 257, EvMemset 0x10010 8192,
                     EvTest ''Compare XOR'' 0x11000 0x11808 257, EvMemset 0x10010 8192]\<rparr>)
   \<and> acquire once_cfg unknown_answers =
        Returns (unknown_region, \<lparr>mallocs = [], mmaps = [], mlocks = [],
          verdicts = [0, 0, 0], trace = [EvMalloc 8192, EvMlock 0x11000 4112]\<rparr>)
   \<and> cfg_loops once_cfg = 1 \<and> cfg_testmask once_cfg = 3
   \<and> (\<exists>c w'. main once_cfg unknown_answers = Exits c w'
         \<and> trace w' = [EvMalloc 8192, EvMlock 0x11000 4112, EvStuckAddress 0x11000 4,
             EvTest ''Random Value'' 0x11000 0x11010 2, EvMemset 0x10010 8192,
             EvTest ''Compare XOR'' 0x11000 0x11010 2, EvMemset 0x10010 8192])"
proof -
  have enough: "Suc (length (selected 3)) \<le> length (verdicts two_verdicts)"
    by (simp add: selected_3 two_verdicts_def)
  have cfg: "cfg_loops once_cfg = 1" "cfg_testmask once_cfg = 3"
    by (simp_all add: once_cfg_def faulty_cfg_def odd_cfg_def)
  have loops: "cfg_loops once_cfg \<noteq> 0" "cfg_loops once_cfg \<noteq> - 1"
    by (simp_all add: cfg)
  have enough': "unat (cfg_loops once_cfg) * Suc (length (selected (cfg_testmask once_cfg)))
      \<le> length (verdicts \<lparr>mallocs = [], mmaps = [], mlocks = [],
            verdicts = [0, 0, 0 :: cint],
            trace = [EvMalloc 8192, EvMlock 0x11000 4112]\<rparr>)"
    by (simp add: cfg selected_3)
  from selected_tests_run [THEN conjunct1, rule_format, OF enough, of heap_after 0]
  have first: "\<exists>e'. one_pass 3 heap_after (split_region heap_after) 0 two_verdicts =
         Returns (e', \<lparr>mallocs = [], mmaps = [], mlocks = [], verdicts = [],
           trace = [EvStuckAddress 0x11000 514,
                    EvTest ''Random Value'' 0x11000 0x11808 257, EvMemset 0x10010 8192,
                    EvTest ''Compare XOR'' 0x11000 0x11808 257, EvMemset 0x10010 8192]\<rparr>)"
    by (simp add: selected_3 two_verdicts_def heap_after_def heap_before_def alloc_init_def
        split_region_def Let_def signed_divide_int_def sizeof_ul_def)
  have go: "(0 :: ul) = 0 \<or> (1 :: ul) \<le> 0" by simp
  from selected_tests_run [THEN conjunct2, THEN conjunct1, rule_format, OF go enough,
      of heap_after 0]
  have again: "\<exists>e'. test_loop 0 1 3 heap_after (split_region heap_after) 0 two_verdicts =
         test_loop 0 2 3 heap_after (split_region heap_after) e'
           \<lparr>mallocs = [], mmaps = [], mlocks = [], verdicts = [],
            trace = [EvStuckAddress 0x11000 514,
                     EvTest ''Random Value'' 0x11000 0x11808 257, EvMemset 0x10010 8192,
                     EvTest ''Compare XOR'' 0x11000 0x11808 257, EvMemset 0x10010 8192]\<rparr>"
    by (simp add: selected_3 two_verdicts_def heap_after_def heap_before_def alloc_init_def
        split_region_def Let_def signed_divide_int_def sizeof_ul_def)
  from selected_tests_run [THEN conjunct2, THEN conjunct2, THEN conjunct1, rule_format,
      OF unknown_run loops enough']
  have second: "\<exists>c w'. main once_cfg unknown_answers = Exits c w'
         \<and> trace w' = [EvMalloc 8192, EvMlock 0x11000 4112, EvStuckAddress 0x11000 4,
             EvTest ''Random Value'' 0x11000 0x11010 2, EvMemset 0x10010 8192,
             EvTest ''Compare XOR'' 0x11000 0x11010 2, EvMemset 0x10010 8192]"
    by (simp add: cfg selected_3 unknown_region_def faulty_region_def heap_after_def
        heap_before_def alloc_init_def split_region_def Let_def signed_divide_int_def
        sizeof_ul_def)
  from enough first again unknown_run cfg second show ?thesis by simp
qed

text \<open>
  C7. The loop counter and the loop count are \<^verbatim>\<open>unsigned long\<close>. For a count \<open>N\<close> with
  \<open>0 < N < ULONG_MAX\<close> the loop makes exactly \<open>N\<close> passes, each the stuck-address test
  followed by the selected tests of the table, and for the count 0 it never ends
  (\<open>passes_exact\<close> and \<open>loops_zero_never_exits\<close> above). For the count \<open>ULONG_MAX\<close> the
  condition \<^verbatim>\<open>loop <= loops\<close> holds for every value of the counter, which wraps to 0 after
  pass \<open>ULONG_MAX\<close>: whatever verdicts are recorded, the run is still going when they are
  used up, so the loop does not stop after \<open>N\<close> passes.
\<close>

theorem loops_max_never_exits:
  "\<exists>w'. run_loops (cfg\<lparr>cfg_loops := - 1\<rparr>) a w = Pending w'"
proof -
  from test_loop_unbounded [of "- 1" 1 "cfg_testmask cfg" a "split_region a" 0 w]
  obtain w' where "test_loop (- 1) 1 (cfg_testmask cfg) a (split_region a) 0 w = Pending w'"
    by auto
  then show ?thesis by (simp add: run_loops_def and_then_def)
qed

text \<open>
  C8. With \<^verbatim>\<open>use_phys\<close> set and a request of at least one page: if the device cannot be
  opened, or if \<^verbatim>\<open>mmap\<close> fails, the program exits with the non-starter status. Otherwise
  the region is the one mapping \<^verbatim>\<open>mmap\<close> returned for the requested size at
  \<^verbatim>\<open>physaddrbase\<close>: the trace holds the \<^verbatim>\<open>open\<close>, that single \<^verbatim>\<open>mmap\<close> of the requested length and
  the \<^verbatim>\<open>mlock\<close> of the same range, and nothing after them. A failing \<^verbatim>\<open>mlock\<close> clears
  \<open>do_mlock\<close> and the program goes on.
\<close>

theorem physical_mapping:
  assumes phys: "cfg_use_phys cfg" and sc: "cfg_sc_page_size cfg \<noteq> - 1"
    and big: "\<not> cfg_request cfg
                < (if cfg_hugepages cfg then 2 * 1024 * 1024 else cfg_sc_page_size cfg)"
  shows "(\<not> cfg_opened cfg \<longrightarrow>
            acquire cfg w = Exits EXIT_FAIL_NONSTARTER (called EvOpen w))
       \<and> (cfg_opened cfg \<longrightarrow> mmaps w = MapErr e # rs \<longrightarrow>
            acquire cfg w = Exits EXIT_FAIL_NONSTARTER
              (w\<lparr>mmaps := rs, trace := trace w @
                   [EvOpen, EvMmapPhys (cfg_request cfg) (cfg_physaddrbase cfg)]\<rparr>))
       \<and> (cfg_opened cfg \<longrightarrow> mmaps w = MapOk p # rs \<longrightarrow> p \<noteq> MAP_FAILED \<longrightarrow> p \<noteq> 0 \<longrightarrow>
            mlocks w = m # ms \<longrightarrow>
            (\<exists>a. acquire cfg w = Returns (a,
                w\<lparr>mmaps := rs, mlocks := ms, trace := trace w @
                   [EvOpen, EvMmapPhys (cfg_request cfg) (cfg_physaddrbase cfg),
                    EvMlock p (cfg_request cfg)]\<rparr>)
              \<and> buf a = p \<and> (do_mlock a \<longleftrightarrow> m = MlockOk)
              \<and> (\<not> cfg_hugepages cfg \<longrightarrow> wantbytes a = cfg_request cfg)))"
proof (intro conjI impI)
  note start = acquire_def setup_alloc_Returns [OF sc] and_then_def Let_def
    wantmb_within_maxmb wantmb_within_maxmb_mask map_physical_def alloc_init_def called_def
  {
    assume "\<not> cfg_opened cfg"
    with phys big show "acquire cfg w = Exits EXIT_FAIL_NONSTARTER (called EvOpen w)"
      by (simp add: start)
  next
    assume "cfg_opened cfg" and "mmaps w = MapErr e # rs"
    with phys big show "acquire cfg w = Exits EXIT_FAIL_NONSTARTER
        (w\<lparr>mmaps := rs, trace := trace w @
           [EvOpen, EvMmapPhys (cfg_request cfg) (cfg_physaddrbase cfg)]\<rparr>)"
      by (simp add: start)
  next
    assume "cfg_opened cfg" and "mmaps w = MapOk p # rs" and "p \<noteq> MAP_FAILED" and "p \<noteq> 0"
      and "mlocks w = m # ms"
    with phys big show "\<exists>a. acquire cfg w = Returns (a,
          w\<lparr>mmaps := rs, mlocks := ms, trace := trace w @
             [EvOpen, EvMmapPhys (cfg_request cfg) (cfg_physaddrbase cfg),
              EvMlock p (cfg_request cfg)]\<rparr>)
        \<and> buf a = p \<and> (do_mlock a \<longleftrightarrow> m = MlockOk)
        \<and> (\<not> cfg_hugepages cfg \<longrightarrow> wantbytes a = cfg_request cfg)"
      by (cases m)
        (simp_all add: start alloc_using_hugepages_def hugepages_while_done
          round_to_pagesize_def align_to_page_def)
  }
qed

theorem physical_mapping_witness:
  "acquire (phys_cfg\<lparr>cfg_opened := False\<rparr>) (phys_answers (MapOk 0x7f0000000000) MlockOk)
     = Exits 1 \<lparr>mallocs = [], mmaps = [MapOk 0x7f0000000000], mlocks = [MlockOk],
         verdicts = [], trace = [EvOpen]\<rparr>
   \<and> acquire phys_cfg (phys_answers (MapErr EPERM) MlockOk)
     = Exits 1 \<lparr>mallocs = [], mmaps = [], mlocks = [MlockOk], verdicts = [],
         trace = [EvOpen, EvMmapPhys 8192 0x80000000]\<rparr>
   \<and> (\<exists>a. acquire phys_cfg (phys_answers (MapOk 0x7f0000000000) (MlockErr ENOMEM))
          = Returns (a, \<lparr>mallocs = [], mmaps = [], mlocks = [], verdicts = [],
              trace = [EvOpen, EvMmapPhys 8192 0x80000000, EvMlock 0x7f0000000000 8192]\<rparr>)
        \<and> buf a = 0x7f0000000000 \<and> \<not> do_mlock a \<and> wantbytes a = 8192)"
proof -
  have c: "cfg_use_phys (phys_cfg\<lparr>cfg_opened := b\<rparr>)"
    "cfg_sc_page_size (phys_cfg\<lparr>cfg_opened := b\<rparr>) \<noteq> - 1"
    "\<not> cfg_request (phys_cfg\<lparr>cfg_opened := b\<rparr>)
        < (if cfg_hugepages (phys_cfg\<lparr>cfg_opened := b\<rparr>) then 2 * 1024 * 1024
           else cfg_sc_page_size (phys_cfg\<lparr>cfg_opened := b\<rparr>))" for b
    by (simp_all add: phys_cfg_def)
  have same: "phys_cfg\<lparr>cfg_opened := True\<rparr> = phys_cfg"
    by (simp add: phys_cfg_def)
  from physical_mapping [OF c, of False "phys_answers (MapOk 0x7f0000000000) MlockOk"]
  have "acquire (phys_cfg\<lparr>cfg_opened := False\<rparr>) (phys_answers (MapOk 0x7f0000000000) MlockOk)
     = Exits 1 \<lparr>mallocs = [], mmaps = [MapOk 0x7f0000000000], mlocks = [MlockOk],
         verdicts = [], trace = [EvOpen]\<rparr>"
    by (simp add: phys_cfg_def phys_answers_def called_def EXIT_FAIL_NONSTARTER_def)
  moreover
  from physical_mapping [OF c, of True "phys_answers (MapErr EPERM) MlockOk" EPERM "[]"]
  have "acquire phys_cfg (phys_answers (MapErr EPERM) MlockOk)
     = Exits 1 \<lparr>mallocs = [], mmaps = [], mlocks = [MlockOk], verdicts = [],
         trace = [EvOpen, EvMmapPhys 8192 0x80000000]\<rparr>"
    by (simp add: same) (simp add: phys_cfg_def phys_answers_def EXIT_FAIL_NONSTARTER_def)
  moreover
  from physical_mapping [OF c, of True "phys_answers (MapOk 0x7f0000000000) (MlockErr ENOMEM)"
      _ "[]" "0x7f0000000000" "MlockErr ENOMEM" "[]"]
  have "\<exists>a. acquire phys_cfg (phys_answers (MapOk 0x7f0000000000) (MlockErr ENOMEM))
          = Returns (a, \<lparr>mallocs = [], mmaps = [], mlocks = [], verdicts = [],
              trace = [EvOpen, EvMmapPhys 8192 0x80000000, EvMlock 0x7f0000000000 8192]\<rparr>)
        \<and> buf a = 0x7f0000000000 \<and> \<not> do_mlock a \<and> wantbytes a = 8192"
    by (simp add: same) (simp add: phys_cfg_def phys_answers_def MAP_FAILED_def)
  ultimately show ?thesis by simp
qed

text \<open>
  C9. \<^verbatim>\<open>alloc_using_hugepages\<close> does not assign \<open>bufsize\<close>. In huge-page mode without a
  physical device, with \<^verbatim>\<open>mmap\<close> returning addresses on huge-page boundaries as the kernel
  does, \<open>bufsize\<close> is therefore still the 0 of the initialiser when the loops start, however
  many bytes were mapped: \<open>count\<close> is 0 and the stuck-address test gets 0 words too, in
  every call of every pass, whether the program exits or is still running.
\<close>

theorem hugepages_word_count_zero:
  assumes hp: "cfg_hugepages cfg" and nophys: "\<not> cfg_use_phys cfg"
    and maps: "\<forall>p. MapOk p \<in> set (mmaps w) \<longrightarrow> p mod (2 * 1024 * 1024) = 0"
    and fresh: "test_counts (trace w) = []"
  shows "(alloc_using_hugepages f a0 w0 = Returns (a0', w0') \<longrightarrow> bufsize a0' = bufsize a0)
       \<and> (acquire cfg w = Returns (a, w1) \<longrightarrow>
            bufsize a = 0 \<and> count (split_region a) = 0
            \<and> scast (bufsize a) div sizeof_ul = (0 :: size_t))
       \<and> (main cfg w = Exits c w' \<or> main cfg w = Pending w' \<longrightarrow>
            set (test_counts (trace w')) \<subseteq> {0})"
proof (rule conjI [OF _ conjI]; rule impI)
  assume "alloc_using_hugepages f a0 w0 = Returns (a0', w0')"
  from hugepages_while_Returns [OF this [unfolded alloc_using_hugepages_def Let_def]]
  show "bufsize a0' = bufsize a0" by (simp add: round_to_pagesize_def)
next
  assume ret: "acquire cfg w = Returns (a, w1)"
  from hugepages_acquire [OF hp nophys maps ret]
  show "bufsize a = 0 \<and> count (split_region a) = 0
      \<and> scast (bufsize a) div sizeof_ul = (0 :: size_t)"
    by (simp add: split_region_def Let_def)
next
  assume ends: "main cfg w = Exits c w' \<or> main cfg w = Pending w'"
  from fresh have q: "quiet w" by (simp add: quiet_def)
  note acq = acquire_quiet [OF q, of cfg]
  have "zero_counts w'"
  proof (cases "acquire cfg w")
    case (Returns x)
    obtain a' w1' where x: "x = (a', w1')" by (cases x)
    from acq have "quiet w1'" unfolding Returns x all_ends_def by simp
    then have z: "zero_counts w1'" by (rule quiet_zero_counts)
    from hugepages_acquire [OF hp nophys maps Returns [unfolded x]]
    have zero: "count (split_region a') = 0" "scast (bufsize a') div sizeof_ul = (0 :: size_t)"
      by (simp_all add: split_region_def Let_def)
    note loop = test_loop_zero_counts [OF zero z, of "cfg_loops cfg" 1 "cfg_testmask cfg" 0]
    from ends Returns x have "run_loops cfg a' w1' = Exits c w' \<or> run_loops cfg a' w1' = Pending w'"
      by (simp add: main_def and_then_def)
    with loop show ?thesis
      by (auto simp: run_loops_def and_then_def all_ends_def zero_counts_called word_count_def
          split: outcome.splits if_splits)
  next
    case (Exits c' w'')
    with ends acq show ?thesis
      by (auto simp: main_def and_then_def all_ends_def quiet_zero_counts)
  next
    case (Pending w'')
    with ends acq show ?thesis
      by (auto simp: main_def and_then_def all_ends_def quiet_zero_counts)
  qed
  then show "set (test_counts (trace w')) \<subseteq> {0}" by (simp add: zero_counts_def)
qed

theorem hugepages_word_count_zero_witness:
  "cfg_hugepages huge_cfg \<and> \<not> cfg_use_phys huge_cfg
   \<and> mmaps huge_answers = [MapOk 0x7f0000200000]
   \<and> (0x7f0000200000 :: ptr) mod (2 * 1024 * 1024) = 0
   \<and> test_counts (trace huge_answers) = []
   \<and> acquire huge_cfg huge_answers =
       Returns (huge_region, \<lparr>mallocs = [], mmaps = [], mlocks = [], verdicts = [0, 0],
         trace = [EvMmapHuge 4194304]\<rparr>)
   \<and> wantbytes huge_region = 4194304 \<and> bufsize huge_region = 0
   \<and> count (split_region huge_region) = 0
   \<and> main huge_cfg huge_answers = Exits 0 huge_end
   \<and> test_counts (trace huge_end) = [0, 0]"
proof -
  have hp: "cfg_hugepages huge_cfg" and nophys: "\<not> cfg_use_phys huge_cfg"
    by (simp_all add: huge_cfg_def)
  have maps: "\<forall>p. MapOk p \<in> set (mmaps huge_answers) \<longrightarrow> p mod (2 * 1024 * 1024) = 0"
    by (simp add: huge_answers_def)
  have fresh: "test_counts (trace huge_answers) = []"
    by (simp add: huge_answers_def test_counts_def map_filter_def)
  have counts: "test_counts (trace huge_end) = [0, 0]"
    by (simp add: huge_end_def test_counts_def map_filter_def word_count_def)
  from hugepages_word_count_zero [OF hp nophys maps fresh, THEN conjunct2,
      of huge_region _ 0 huge_end]
    huge_run huge_main hp nophys fresh counts
  show ?thesis
    by (simp add: huge_region_def) (simp add: huge_answers_def)
qed

text \<open>
  C10. On the heap path, when the block that acquisition keeps does not start on a page
  boundary and pinning was in force when it was allocated (the region is still pinned at
  the end, or the \<^verbatim>\<open>mlock\<close> call on it, then the last call of acquisition, failed for an
  unknown reason): \<^verbatim>\<open>alloc_using_malloc\<close> has subtracted the distance from the block to the
  page boundary once, and the range it gave to \<^verbatim>\<open>mlock\<close> starts at the boundary and is the
  size granted less that distance; the alignment block of \<^verbatim>\<open>main\<close> computes the same boundary
  and subtracts the distance again. The region that \<^verbatim>\<open>main\<close> tests, from the first
  stuck-address test to \<^verbatim>\<open>munlock\<close>, is the one of that second size: it is shorter than the
  range given to \<^verbatim>\<open>mlock\<close> by the distance, which for pages of \<open>2\<^sup>k\<close> bytes is \<open>2\<^sup>k\<close> less the
  offset of the block in its page, and is not 0.
\<close>

theorem skip_subtracted_twice:
  assumes heap: "\<not> cfg_hugepages cfg" "\<not> cfg_use_phys cfg"
    and ret: "acquire cfg w = Returns (a, w1)"
    and pin: "do_mlock a \<or> ends_with_mlock (trace w1)"
    and unaligned: "buf a mod pagesize a \<noteq> 0"
  shows "aligned a = (buf a AND pagesizemask a) + pagesize a
    \<and> (\<exists>tr. trace w1 = tr @ [EvMlock (aligned a)
           (scast (ucast (wantbytes a) - ucast (aligned a - buf a) :: cint))])
    \<and> bufsize a = ucast (wantbytes a) - ucast (aligned a - buf a) - ucast (aligned a - buf a)
    \<and> (cfg_loops cfg \<noteq> 0 \<longrightarrow> cfg_loops cfg \<noteq> - 1 \<longrightarrow>
        unat (cfg_loops cfg) * Suc (length (selected (cfg_testmask cfg)))
          \<le> length (verdicts w1) \<longrightarrow>
        (\<exists>c w2. main cfg w = Exits c w2
           \<and> trace w2 = trace w1
               @ concat (replicate (unat (cfg_loops cfg))
                   (EvStuckAddress (aligned a) (scast (bufsize a) div sizeof_ul)
                    # concat (map (test_events a (split_region a))
                        (selected (cfg_testmask cfg)))))
               @ (if do_mlock a then [EvMunlock (aligned a) (scast (bufsize a))] else [])))
    \<and> (cfg_sc_page_size cfg = 2 ^ k \<longrightarrow> k < 31 \<longrightarrow> uint (wantbytes a) < 2 ^ 31 \<longrightarrow>
        uint (aligned a - buf a) = 2 ^ k - uint (buf a) mod 2 ^ k
        \<and> 0 < uint (aligned a - buf a)
        \<and> sint (ucast (wantbytes a) - ucast (aligned a - buf a) :: cint)
            = uint (wantbytes a) - uint (aligned a - buf a)
        \<and> sint (bufsize a) = uint (wantbytes a) - 2 * uint (aligned a - buf a))"
proof -
  note region = heap_region [OF heap ret]
  note al = region(6) [OF unaligned, THEN conjunct1]
  note twice = region(7) [OF unaligned pin]
  have run: "\<exists>c w2. main cfg w = Exits c w2
           \<and> trace w2 = trace w1
               @ concat (replicate (unat (cfg_loops cfg))
                   (EvStuckAddress (aligned a) (scast (bufsize a) div sizeof_ul)
                    # concat (map (test_events a (split_region a))
                        (selected (cfg_testmask cfg)))))
               @ (if do_mlock a then [EvMunlock (aligned a) (scast (bufsize a))] else [])"
    if loops: "cfg_loops cfg \<noteq> 0" "cfg_loops cfg \<noteq> - 1"
      and enough: "unat (cfg_loops cfg) * Suc (length (selected (cfg_testmask cfg)))
        \<le> length (verdicts w1)"
    using ret passes_exact [OF loops enough, of a]
    by (simp add: main_def and_then_def pass_events_def)
  have sizes: "uint (aligned a - buf a) = 2 ^ k - uint (buf a) mod 2 ^ k
        \<and> 0 < uint (aligned a - buf a)
        \<and> sint (ucast (wantbytes a) - ucast (aligned a - buf a) :: cint)
            = uint (wantbytes a) - uint (aligned a - buf a)
        \<and> sint (bufsize a) = uint (wantbytes a) - 2 * uint (aligned a - buf a)"
    if page: "cfg_sc_page_size cfg = 2 ^ k" and k: "k < 31"
      and small: "uint (wantbytes a) < 2 ^ 31"
  proof -
    from region(1,2) page have ps: "pagesize a = 2 ^ k" "pagesizemask a = NOT (2 ^ k - 1)"
      by simp_all
    from k have k64: "k < 64" by simp
    have pk: "(2 :: int) ^ k \<le> 2 ^ 30"
      using k by (intro power_increasing) simp_all
    have zero: "uint (0 :: 64 word) \<le> 2 ^ 30" by simp
    define sk where "sk = aligned a - buf a"
    from unaligned ps have un: "buf a mod 2 ^ k \<noteq> 0" by simp
    from al ps have al': "aligned a = (buf a AND NOT (2 ^ k - 1)) + 2 ^ k" by simp
    from skip_uint [OF k64 un] al' have sk: "uint sk = 2 ^ k - uint (buf a) mod 2 ^ k"
      "0 < uint (buf a) mod 2 ^ k" by (simp_all add: sk_def)
    then have sk0: "0 < uint sk" "uint sk < 2 ^ k" by simp_all
    with pk have sk30: "uint sk \<le> 2 ^ 30" by linarith
    from twice have size: "bufsize a = ucast (wantbytes a) - ucast sk - ucast sk"
      unfolding sk_def by blast
    from sint_request_less [OF small sk30 zero]
    have once: "sint (ucast (wantbytes a) - ucast sk :: cint) = uint (wantbytes a) - uint sk"
      by simp
    from sint_request_less [OF small sk30 sk30] size
    have both: "sint (bufsize a) = uint (wantbytes a) - 2 * uint sk" by simp
    from sk(1) sk0(1) once both show ?thesis unfolding sk_def by blast
  qed
  from al twice run sizes show ?thesis by blast
qed

theorem skip_subtracted_twice_witness:
  "\<not> cfg_hugepages faulty_cfg \<and> \<not> cfg_use_phys faulty_cfg
   \<and> acquire faulty_cfg faulty_answers =
       Returns (faulty_region, \<lparr>mallocs = [], mmaps = [], mlocks = [],
         verdicts = [0, 1, 0, 1, 0, 0], trace = [EvMalloc 8192, EvMlock 0x11000 4112]\<rparr>)
   \<and> do_mlock faulty_region \<and> buf faulty_region mod pagesize faulty_region \<noteq> 0
   \<and> wantbytes faulty_region = 8192 \<and> aligned faulty_region - buf faulty_region = 4080
   \<and> aligned faulty_region = 0x11000
   \<and> (\<exists>tr. [EvMalloc 8192, EvMlock 0x11000 4112] = tr @ [EvMlock 0x11000 (8192 - 4080)])
   \<and> bufsize faulty_region = 8192 - 4080 - 4080
   \<and> sint (bufsize faulty_region) = 8192 - 2 * 4080
   \<and> (\<exists>c w2. main faulty_cfg faulty_answers = Exits c w2
         \<and> trace w2 = [EvMalloc 8192, EvMlock 0x11000 4112,
             EvStuckAddress 0x11000 4,
             EvTest ''Random Value'' 0x11000 0x11010 2, EvMemset 0x10010 8192,
             EvTest ''Compare XOR'' 0x11000 0x11010 2, EvMemset 0x10010 8192,
             EvStuckAddress 0x11000 4,
             EvTest ''Random Value'' 0x11000 0x11010 2, EvMemset 0x10010 8192,
             EvTest ''Compare XOR'' 0x11000 0x11010 2, EvMemset 0x10010 8192,
             EvMunlock 0x11000 32])
   \<and> acquire once_cfg unknown_answers =
        Returns (unknown_region, \<lparr>mallocs = [], mmaps = [], mlocks = [],
          verdicts = [0, 0, 0], trace = [EvMalloc 8192, EvMlock 0x11000 4112]\<rparr>)
   \<and> \<not> do_mlock unknown_region
   \<and> ends_with_mlock [EvMalloc 8192, EvMlock 0x11000 4112]
   \<and> bufsize unknown_region = 8192 - 4080 - 4080"
proof -
  have heap: "\<not> cfg_hugepages faulty_cfg" "\<not> cfg_use_phys faulty_cfg"
    and page: "cfg_sc_page_size faulty_cfg = 2 ^ 12" and k: "(12 :: nat) < 31"
    and loops: "cfg_loops faulty_cfg \<noteq> 0" "cfg_loops faulty_cfg \<noteq> - 1"
    and cfg: "cfg_loops faulty_cfg = 2" "cfg_testmask faulty_cfg = 3"
    by (simp_all add: faulty_cfg_def odd_cfg_def)
  have region: "do_mlock faulty_region" "buf faulty_region mod pagesize faulty_region \<noteq> 0"
    "wantbytes faulty_region = 8192" "aligned faulty_region - buf faulty_region = 4080"
    "aligned faulty_region = 0x11000" "uint (wantbytes faulty_region) < 2 ^ 31"
    by (simp_all add: faulty_region_def heap_after_def heap_before_def alloc_init_def)
  have pin: "do_mlock faulty_region \<or> ends_with_mlock (trace \<lparr>mallocs = [], mmaps = [],
      mlocks = [], verdicts = [0, 1, 0, 1, 0, 0 :: cint],
      trace = [EvMalloc 8192, EvMlock 0x11000 4112]\<rparr>)"
    by (simp add: region)
  have enough: "unat (cfg_loops faulty_cfg) * Suc (length (selected (cfg_testmask faulty_cfg)))
      \<le> length (verdicts \<lparr>mallocs = [], mmaps = [], mlocks = [],
            verdicts = [0, 1, 0, 1, 0, 0 :: cint],
            trace = [EvMalloc 8192, EvMlock 0x11000 4112]\<rparr>)"
    by (simp add: cfg selected_3)
  have twice: "replicate 2 x = [x, x]" for x :: "event list"
    by (simp add: numeral_2_eq_2)
  note inst = skip_subtracted_twice [OF heap faulty_run pin region(2), where k = 12]
  from inst [THEN conjunct2, THEN conjunct1]
  have first: "\<exists>tr. [EvMalloc 8192, EvMlock 0x11000 4112]
      = tr @ [EvMlock 0x11000 (8192 - 4080)]"
    by (simp add: region(3,4) region(5))
  from inst [THEN conjunct2, THEN conjunct2, THEN conjunct1]
  have second: "bufsize faulty_region = 8192 - 4080 - 4080"
    by (simp add: region(3,4))
  from inst [THEN conjunct2, THEN conjunct2, THEN conjunct2, THEN conjunct1, rule_format,
      OF loops enough]
  have third: "\<exists>c w2. main faulty_cfg faulty_answers = Exits c w2
         \<and> trace w2 = [EvMalloc 8192, EvMlock 0x11000 4112,
             EvStuckAddress 0x11000 4,
             EvTest ''Random Value'' 0x11000 0x11010 2, EvMemset 0x10010 8192,
             EvTest ''Compare XOR'' 0x11000 0x11010 2, EvMemset 0x10010 8192,
             EvStuckAddress 0x11000 4,
             EvTest ''Random Value'' 0x11000 0x11010 2, EvMemset 0x10010 8192,
             EvTest ''Compare XOR'' 0x11000 0x11010 2, EvMemset 0x10010 8192,
             EvMunlock 0x11000 32]"
    by (simp add: cfg selected_3 twice test_events_def faulty_region_def heap_after_def
        heap_before_def alloc_init_def split_region_def Let_def signed_divide_int_def
        sizeof_ul_def)
  from inst [THEN conjunct2, THEN conjunct2, THEN conjunct2, THEN conjunct2, rule_format,
      OF page k region(6)]
  have fourth: "sint (bufsize faulty_region) = 8192 - 2 * 4080"
    by (simp add: region(3,4))
  have heap': "\<not> cfg_hugepages once_cfg" "\<not> cfg_use_phys once_cfg"
    by (simp_all add: once_cfg_def faulty_cfg_def odd_cfg_def)
  have region': "\<not> do_mlock unknown_region"
    "buf unknown_region mod pagesize unknown_region \<noteq> 0"
    "wantbytes unknown_region = 8192" "aligned unknown_region - buf unknown_region = 4080"
    by (simp_all add: unknown_region_def faulty_region_def heap_after_def heap_before_def
        alloc_init_def)
  have last: "ends_with_mlock [EvMalloc 8192, EvMlock 0x11000 4112]"
    by (simp add: ends_with_mlock_def)
  then have pin': "do_mlock unknown_region \<or> ends_with_mlock (trace \<lparr>mallocs = [],
      mmaps = [], mlocks = [], verdicts = [0, 0, 0 :: cint],
      trace = [EvMalloc 8192, EvMlock 0x11000 4112]\<rparr>)"
    by simp
  from skip_subtracted_twice [OF heap' unknown_run pin' region'(2), THEN conjunct2,
      THEN conjunct2, THEN conjunct1]
  have fifth: "bufsize unknown_region = 8192 - 4080 - 4080"
    by (simp add: region'(3,4))
  from heap faulty_run region first second third fourth unknown_run region'(1) last fifth
  show ?thesis by simp
qed

end
